theory Spec2Isabelle
  imports Complex_Main "HOL-Library.Multiset"
begin

section \<open>Python values used by the solver\<close>

text \<open>
  A location and the depot are \<open>(x, y)\<close> tuples. Coordinates and distances are modelled
  as real numbers: the floating-point results of numpy are idealised to the exact values.
  The one non-finite value the solver can produce, numpy's \<open>nan\<close> (from \<open>np.std\<close>
  and \<open>np.mean\<close> of an empty array), is kept as a value of its own.
\<close>

type_synonym point = "real \<times> real"

datatype npfloat = Num real | NaN

datatype error = IndexError | ValueError

text \<open>Sequencing of computations that may raise: the first exception wins.\<close>

fun ebind :: "error + 'a \<Rightarrow> ('a \<Rightarrow> error + 'b) \<Rightarrow> error + 'b" where
  "ebind (Inl e) f = Inl e"
| "ebind (Inr x) f = f x"

text \<open>A list comprehension whose element expression may raise.\<close>

fun emap :: "('a \<Rightarrow> error + 'b) \<Rightarrow> 'a list \<Rightarrow> error + 'b list" where
  "emap f [] = Inr []"
| "emap f (x # xs) = ebind (f x) (\<lambda>y. ebind (emap f xs) (\<lambda>ys. Inr (y # ys)))"

text \<open>\<open>xs[i]\<close>: a negative index counts from the end, an index out of range raises.\<close>

definition py_index :: "'a list \<Rightarrow> int \<Rightarrow> error + 'a" where
  "py_index xs i =
     (let n = int (length xs); k = (if i < 0 then i + n else i)
      in if 0 \<le> k \<and> k < n then Inr (xs ! nat k) else Inl IndexError)"

text \<open>
  \<open>range(start, stop, step)\<close> for \<open>start \<ge> 0\<close> and \<open>step \<ge> 1\<close>. The solver only
  builds such a range inside \<open>for i in range(num_vehicles)\<close>, where the step
  \<open>num_vehicles\<close> is at least 1; the guard on a zero step is never taken there.
\<close>

function py_range3 :: "nat \<Rightarrow> nat \<Rightarrow> nat \<Rightarrow> nat list" where
  "py_range3 start stop step =
     (if step = 0 \<or> stop \<le> start then []
      else start # py_range3 (start + step) stop step)"
  by pat_completeness auto
termination
  by (relation "measure (\<lambda>(start, stop, step). stop - start)") auto

declare py_range3.simps [simp del]

text \<open>\<open>range(n)\<close> for a Python integer \<open>n\<close>: empty when \<open>n \<le> 0\<close>.\<close>

definition py_range :: "int \<Rightarrow> nat list" where
  "py_range n = [0..<nat n]"

text \<open>\<open>sum(...)\<close>: a left fold that starts from 0.\<close>

definition py_sum :: "real list \<Rightarrow> real" where
  "py_sum xs = foldl (+) 0 xs"

text \<open>\<open>np.linalg.norm(np.array(b) - np.array(a))\<close> for two 2D points.\<close>

definition norm_diff :: "point \<Rightarrow> point \<Rightarrow> real" where
  "norm_diff b a = sqrt ((fst b - fst a)\<^sup>2 + (snd b - snd a)\<^sup>2)"

text \<open>\<open>np.mean\<close> and \<open>np.std\<close> (default \<open>ddof = 0\<close>) of a list of finite numbers.\<close>

definition np_mean :: "real list \<Rightarrow> npfloat" where
  "np_mean xs = (if xs = [] then NaN else Num (py_sum xs / real (length xs)))"

definition np_std :: "real list \<Rightarrow> npfloat" where
  "np_std xs =
     (case np_mean xs of
        NaN \<Rightarrow> NaN
      | Num m \<Rightarrow>
          (case np_mean (map (\<lambda>x. \<bar>x - m\<bar>\<^sup>2) xs) of
             NaN \<Rightarrow> NaN
           | Num v \<Rightarrow> Num (sqrt v)))"

section \<open>The solver object\<close>

text \<open>
  \<open>VRPSolver.__init__\<close> stores the instance and the number of locations, and
  \<open>_setup_ga\<close> registers tournament selection with \<open>tournsize=3\<close>; \<open>solve\<close> later
  replaces that registration.
\<close>

record VRPSolver =
  locations :: "point list"
  depot :: point
  num_vehicles :: int
  num_locations :: nat
  select_tournsize :: int

definition init_solver :: "point list \<Rightarrow> point \<Rightarrow> int \<Rightarrow> VRPSolver" where
  "init_solver locs dep nv =
     \<lparr>locations = locs, depot = dep, num_vehicles = nv,
      num_locations = length locs, select_tournsize = 3\<rparr>"

section \<open>Route decoding and fitness evaluation\<close>

text \<open>
  The route expression that \<open>_evaluate_vrp\<close> and \<open>get_vehicle_routes\<close> both contain:
  \<open>[depot] + [locations[individual[j]] for j in range(i, len(individual), num_vehicles)] + [depot]\<close>.
\<close>

definition vehicle_route :: "VRPSolver \<Rightarrow> int list \<Rightarrow> nat \<Rightarrow> error + point list" where
  "vehicle_route s individual i =
     ebind (emap (\<lambda>j. ebind (py_index individual (int j)) (py_index (locations s)))
              (py_range3 i (length individual) (nat (num_vehicles s))))
       (\<lambda>stops. Inr ([depot s] @ stops @ [depot s]))"

text \<open>The generator summed for one vehicle in \<open>_evaluate_vrp\<close>.\<close>

definition vehicle_distance :: "point list \<Rightarrow> real" where
  "vehicle_distance route =
     py_sum (map (\<lambda>k. norm_diff (route ! (k + 1)) (route ! k)) [0..<length route - 1])"

text \<open>The loop of \<open>_evaluate_vrp\<close>, threading \<open>total_distance\<close> and \<open>distances\<close>.\<close>

fun evaluate_loop ::
  "VRPSolver \<Rightarrow> int list \<Rightarrow> nat list \<Rightarrow> real \<times> real list \<Rightarrow> error + (real \<times> real list)" where
  "evaluate_loop s individual [] acc = Inr acc"
| "evaluate_loop s individual (i # rest) (total_distance, distances) =
     ebind (vehicle_route s individual i)
       (\<lambda>route. evaluate_loop s individual rest
          (total_distance + vehicle_distance route, distances @ [vehicle_distance route]))"

definition evaluate_vrp :: "VRPSolver \<Rightarrow> int list \<Rightarrow> error + (real \<times> npfloat)" where
  "evaluate_vrp s individual =
     ebind (evaluate_loop s individual (py_range (num_vehicles s)) (0, []))
       (\<lambda>(total_distance, distances). Inr (total_distance, np_std distances))"

text \<open>The loop of \<open>get_vehicle_routes\<close>, threading \<open>routes\<close>.\<close>

fun routes_loop ::
  "VRPSolver \<Rightarrow> int list \<Rightarrow> nat list \<Rightarrow> point list list \<Rightarrow> error + point list list" where
  "routes_loop s individual [] routes = Inr routes"
| "routes_loop s individual (i # rest) routes =
     ebind (vehicle_route s individual i)
       (\<lambda>route. routes_loop s individual rest (routes @ [route]))"

definition get_vehicle_routes :: "VRPSolver \<Rightarrow> int list \<Rightarrow> error + point list list" where
  "get_vehicle_routes s individual =
     routes_loop s individual (py_range (num_vehicles s)) []"

section \<open>Python's random module\<close>

text \<open>
  The global generator is a stream of raw outcomes and a read position. Each call of
  \<open>random.random\<close> and of \<open>_randbelow\<close> takes the next outcome and brings it into its
  range, so every tape stands for one possible behaviour of the generator. The Mersenne
  Twister itself is not modelled: \<open>random.seed(seed)\<close> installs the tape that a
  parameter \<open>mt\<close> gives for the seed and resets the position.
\<close>

type_synonym rng = "(nat \<Rightarrow> nat) \<times> nat"

definition rng_next :: "rng \<Rightarrow> nat \<times> rng" where
  "rng_next g = (fst g (snd g), (fst g, Suc (snd g)))"

definition random_seed :: "(int \<Rightarrow> nat \<Rightarrow> nat) \<Rightarrow> int \<Rightarrow> rng" where
  "random_seed mt seed = (mt seed, 0)"

text \<open>\<open>random.random()\<close>: a multiple of \<open>2\<^sup>-\<^sup>5\<^sup>3\<close> in \<open>[0, 1)\<close>.\<close>

definition random_random :: "rng \<Rightarrow> real \<times> rng" where
  "random_random g = (case rng_next g of (x, g') \<Rightarrow> (real (x mod 2 ^ 53) / 2 ^ 53, g'))"

text \<open>\<open>_randbelow(n)\<close> for \<open>n > 0\<close>.\<close>

definition randbelow :: "nat \<Rightarrow> rng \<Rightarrow> nat \<times> rng" where
  "randbelow n g = (case rng_next g of (x, g') \<Rightarrow> (x mod n, g'))"

text \<open>\<open>random.randint(a, b)\<close> is \<open>randrange(a, b + 1)\<close>, which raises on an empty range.\<close>

definition randint :: "int \<Rightarrow> int \<Rightarrow> rng \<Rightarrow> error + (int \<times> rng)" where
  "randint a b g =
     (if 0 < b + 1 - a
      then (case randbelow (nat (b + 1 - a)) g of (x, g') \<Rightarrow> Inr (a + int x, g'))
      else Inl ValueError)"

text \<open>\<open>random.choice(seq)\<close>.\<close>

definition random_choice :: "'a list \<Rightarrow> rng \<Rightarrow> error + ('a \<times> rng)" where
  "random_choice seq g =
     (if seq = [] then Inl IndexError
      else (case randbelow (length seq) g of (j, g') \<Rightarrow> Inr (seq ! j, g')))"

text \<open>
  \<open>random.sample(range(n), n)\<close>. With \<open>k = n\<close> the library always takes its pool branch
  (\<open>n \<le> setsize\<close>): \<open>j = randbelow(n - i); result[i] = pool[j]; pool[j] = pool[n - i - 1]\<close>.
  The slots \<open>result[i]\<close> are filled in increasing order, written here as appending.
\<close>

fun sample_loop :: "nat list \<Rightarrow> nat \<Rightarrow> int list \<Rightarrow> int list \<Rightarrow> rng \<Rightarrow> int list \<times> rng" where
  "sample_loop [] n pool result g = (result, g)"
| "sample_loop (i # rest) n pool result g =
     (case randbelow (n - i) g of
        (j, g') \<Rightarrow> sample_loop rest n (pool[j := pool ! (n - i - 1)]) (result @ [pool ! j]) g')"

definition random_sample_range :: "nat \<Rightarrow> rng \<Rightarrow> int list \<times> rng" where
  "random_sample_range n g = sample_loop [0..<n] n (map int [0..<n]) [] g"

text \<open>\<open>xs[i] = v\<close> with Python's index rules.\<close>

definition py_setitem :: "'a list \<Rightarrow> int \<Rightarrow> 'a \<Rightarrow> error + 'a list" where
  "py_setitem xs i v =
     (let n = int (length xs); k = (if i < 0 then i + n else i)
      in if 0 \<le> k \<and> k < n then Inr (xs[nat k := v]) else Inl IndexError)"

section \<open>DEAP: fitness and individuals\<close>

text \<open>
  \<open>creator.Individual\<close> is a list of genes with a \<open>fitness\<close> attribute. A
  \<open>base.Fitness\<close> stores \<open>wvalues\<close>, the values multiplied by the weights; the empty
  tuple means that the fitness is not valid. \<open>_setup_ga\<close> creates \<open>FitnessMin\<close> with
  the weights \<open>(-1.0, -1.0)\<close>.
\<close>

record individual =
  genes :: "int list"
  wvalues :: "npfloat list"

definition FitnessMin_weights :: "real list" where
  "FitnessMin_weights = [- 1, - 1]"

fun np_mul :: "npfloat \<Rightarrow> real \<Rightarrow> npfloat" where
  "np_mul (Num x) w = Num (x * w)"
| "np_mul NaN w = NaN"

fun np_truediv :: "npfloat \<Rightarrow> real \<Rightarrow> npfloat" where
  "np_truediv (Num x) w = Num (x / w)"
| "np_truediv NaN w = NaN"

text \<open>The setter and the getter of \<open>Fitness.values\<close>, and \<open>Fitness.valid\<close>.\<close>

definition setValues :: "npfloat list \<Rightarrow> npfloat list" where
  "setValues values = map2 np_mul values FitnessMin_weights"

definition getValues :: "npfloat list \<Rightarrow> npfloat list" where
  "getValues wv = map2 np_truediv wv FitnessMin_weights"

definition fitness_valid :: "individual \<Rightarrow> bool" where
  "fitness_valid ind = (length (wvalues ind) \<noteq> 0)"

text \<open>
  Comparison of floats, where every comparison with \<open>nan\<close> is false, and Python's
  comparison of tuples: the first position where the items are not equal decides,
  otherwise the lengths do. (CPython treats an object as equal to itself before it
  compares; that shortcut is not modelled and can only matter for \<open>nan\<close>.)
\<close>

fun np_eq :: "npfloat \<Rightarrow> npfloat \<Rightarrow> bool" where
  "np_eq (Num x) (Num y) = (x = y)"
| "np_eq _ _ = False"

fun np_le :: "npfloat \<Rightarrow> npfloat \<Rightarrow> bool" where
  "np_le (Num x) (Num y) = (x \<le> y)"
| "np_le _ _ = False"

fun py_tuple_le :: "npfloat list \<Rightarrow> npfloat list \<Rightarrow> bool" where
  "py_tuple_le [] ys = True"
| "py_tuple_le (x # xs) [] = False"
| "py_tuple_le (x # xs) (y # ys) = (if np_eq x y then py_tuple_le xs ys else np_le x y)"

text \<open>\<open>Fitness.__le__\<close> compares the \<open>wvalues\<close>; \<open>Fitness.__gt__\<close> is its negation.\<close>

definition fitness_le :: "npfloat list \<Rightarrow> npfloat list \<Rightarrow> bool" where
  "fitness_le wv other = py_tuple_le wv other"

definition fitness_gt :: "npfloat list \<Rightarrow> npfloat list \<Rightarrow> bool" where
  "fitness_gt wv other = (\<not> fitness_le wv other)"

text \<open>\<open>ind.fitness.values = toolbox.evaluate(ind)\<close>.\<close>

definition evaluate_individual :: "VRPSolver \<Rightarrow> individual \<Rightarrow> error + individual" where
  "evaluate_individual s ind =
     ebind (evaluate_vrp s (genes ind))
       (\<lambda>(total_distance, balance_penalty).
          Inr (ind\<lparr>wvalues := setValues [Num total_distance, balance_penalty]\<rparr>))"

section \<open>DEAP: the operators registered in the toolbox\<close>

text \<open>
  \<open>toolbox.individual\<close> is \<open>initIterate(creator.Individual, toolbox.indices)\<close> with
  \<open>indices = random.sample(range(num_locations), num_locations)\<close>; the new individual
  has no fitness values. \<open>toolbox.population(n)\<close> is \<open>initRepeat(list, toolbox.individual, n)\<close>.
\<close>

definition toolbox_individual :: "VRPSolver \<Rightarrow> rng \<Rightarrow> individual \<times> rng" where
  "toolbox_individual s g =
     (case random_sample_range (num_locations s) g of
        (perm, g') \<Rightarrow> (\<lparr>genes = perm, wvalues = []\<rparr>, g'))"

fun initRepeat :: "nat \<Rightarrow> (rng \<Rightarrow> 'a \<times> rng) \<Rightarrow> rng \<Rightarrow> 'a list \<times> rng" where
  "initRepeat 0 func g = ([], g)"
| "initRepeat (Suc n) func g =
     (case func g of
        (x, g') \<Rightarrow> (case initRepeat n func g' of (xs, g'') \<Rightarrow> (x # xs, g'')))"

definition toolbox_population :: "VRPSolver \<Rightarrow> int \<Rightarrow> rng \<Rightarrow> individual list \<times> rng" where
  "toolbox_population s n g = initRepeat (nat n) (toolbox_individual s) g"

text \<open>
  \<open>tools.cxPartialyMatched(ind1, ind2)\<close>. First the position tables:
  \<open>p1[ind1[i]] = i; p2[ind2[i]] = i\<close> for \<open>i\<close> in \<open>range(size)\<close>.
\<close>

fun pmx_positions ::
  "nat list \<Rightarrow> int list \<Rightarrow> int list \<Rightarrow> int list \<times> int list \<Rightarrow> error + (int list \<times> int list)" where
  "pmx_positions [] ind1 ind2 (p1, p2) = Inr (p1, p2)"
| "pmx_positions (i # rest) ind1 ind2 (p1, p2) =
     ebind (py_index ind1 (int i)) (\<lambda>v1.
     ebind (py_setitem p1 v1 (int i)) (\<lambda>p1'.
     ebind (py_index ind2 (int i)) (\<lambda>v2.
     ebind (py_setitem p2 v2 (int i)) (\<lambda>p2'.
       pmx_positions rest ind1 ind2 (p1', p2')))))"

text \<open>
  The body of the loop over \<open>range(cxpoint1, cxpoint2)\<close>:
  \<open>temp1 = ind1[i]; temp2 = ind2[i];
    ind1[i], ind1[p1[temp2]] = temp2, temp1; ind2[i], ind2[p2[temp1]] = temp1, temp2;
    p1[temp1], p1[temp2] = p1[temp2], p1[temp1]; p2[temp1], p2[temp2] = p2[temp2], p2[temp1]\<close>.
  In a tuple assignment the right-hand side is evaluated first and the targets are
  assigned from left to right.
\<close>

definition pmx_step ::
  "nat \<Rightarrow> int list \<times> int list \<times> int list \<times> int list
     \<Rightarrow> error + (int list \<times> int list \<times> int list \<times> int list)" where
  "pmx_step i st =
     (case st of (ind1, ind2, p1, p2) \<Rightarrow>
        ebind (py_index ind1 (int i)) (\<lambda>temp1.
        ebind (py_index ind2 (int i)) (\<lambda>temp2.
        ebind (py_setitem ind1 (int i) temp2) (\<lambda>ind1a.
        ebind (py_index p1 temp2) (\<lambda>k1.
        ebind (py_setitem ind1a k1 temp1) (\<lambda>ind1b.
        ebind (py_setitem ind2 (int i) temp1) (\<lambda>ind2a.
        ebind (py_index p2 temp1) (\<lambda>k2.
        ebind (py_setitem ind2a k2 temp2) (\<lambda>ind2b.
        ebind (py_index p1 temp2) (\<lambda>a1.
        ebind (py_index p1 temp1) (\<lambda>b1.
        ebind (py_setitem p1 temp1 a1) (\<lambda>p1a.
        ebind (py_setitem p1a temp2 b1) (\<lambda>p1b.
        ebind (py_index p2 temp2) (\<lambda>a2.
        ebind (py_index p2 temp1) (\<lambda>b2.
        ebind (py_setitem p2 temp1 a2) (\<lambda>p2a.
        ebind (py_setitem p2a temp2 b2) (\<lambda>p2b.
          Inr (ind1b, ind2b, p1b, p2b))))))))))))))))))"

fun pmx_loop ::
  "nat list \<Rightarrow> int list \<times> int list \<times> int list \<times> int list
     \<Rightarrow> error + (int list \<times> int list \<times> int list \<times> int list)" where
  "pmx_loop [] st = Inr st"
| "pmx_loop (i # rest) st = ebind (pmx_step i st) (pmx_loop rest)"

text \<open>
  The cut points: \<open>cxpoint1 = randint(0, size); cxpoint2 = randint(0, size - 1)\<close>, then
  \<open>cxpoint2 += 1\<close> if \<open>cxpoint2 >= cxpoint1\<close>, else the two are swapped.
\<close>

definition cxPartialyMatched ::
  "int list \<Rightarrow> int list \<Rightarrow> rng \<Rightarrow> error + ((int list \<times> int list) \<times> rng)" where
  "cxPartialyMatched ind1 ind2 g =
     (let sz = min (length ind1) (length ind2)
      in ebind (pmx_positions [0..<sz] ind1 ind2 (replicate sz 0, replicate sz 0))
           (\<lambda>(p1, p2).
         ebind (randint 0 (int sz) g) (\<lambda>(c1, g1).
         ebind (randint 0 (int sz - 1) g1) (\<lambda>(c2, g2).
           let (cxpoint1, cxpoint2) = (if c2 \<ge> c1 then (c1, c2 + 1) else (c2, c1))
           in ebind (pmx_loop [nat cxpoint1..<nat cxpoint2] (ind1, ind2, p1, p2))
                (\<lambda>(ind1', ind2', p1', p2'). Inr ((ind1', ind2'), g2))))))"

text \<open>
  \<open>tools.mutShuffleIndexes(individual, indpb)\<close>: for every position, with probability
  \<open>indpb\<close>, \<open>swap_indx = randint(0, size - 2)\<close>, incremented if it is at least \<open>i\<close>, and
  \<open>individual[i], individual[swap_indx] = individual[swap_indx], individual[i]\<close>.
\<close>

fun mut_loop :: "nat list \<Rightarrow> nat \<Rightarrow> real \<Rightarrow> int list \<Rightarrow> rng \<Rightarrow> error + (int list \<times> rng)" where
  "mut_loop [] sz indpb individual g = Inr (individual, g)"
| "mut_loop (i # rest) sz indpb individual g =
     (case random_random g of
        (r, g1) \<Rightarrow>
          if r < indpb
          then ebind (randint 0 (int sz - 2) g1) (\<lambda>(r2, g2).
                 let swap_indx = (if r2 \<ge> int i then r2 + 1 else r2)
                 in ebind (py_index individual swap_indx) (\<lambda>a.
                    ebind (py_index individual (int i)) (\<lambda>b.
                    ebind (py_setitem individual (int i) a) (\<lambda>individual'.
                    ebind (py_setitem individual' swap_indx b) (\<lambda>individual''.
                      mut_loop rest sz indpb individual'' g2)))))
          else mut_loop rest sz indpb individual g1)"

definition mutShuffleIndexes :: "int list \<Rightarrow> real \<Rightarrow> rng \<Rightarrow> error + (int list \<times> rng)" where
  "mutShuffleIndexes individual indpb g =
     mut_loop [0..<length individual] (length individual) indpb individual g"

text \<open>\<open>toolbox.mutate\<close> is registered with \<open>indpb=0.05\<close>.\<close>

definition toolbox_mutate :: "int list \<Rightarrow> rng \<Rightarrow> error + (int list \<times> rng)" where
  "toolbox_mutate individual g = mutShuffleIndexes individual (5 / 100) g"

text \<open>
  \<open>tools.selRandom(individuals, k)\<close> is \<open>[random.choice(individuals) for i in range(k)]\<close>;
  \<open>max(aspirants, key=attrgetter("fitness"))\<close> raises on an empty list and keeps the
  first of the greatest items.
\<close>

fun selRandom :: "individual list \<Rightarrow> nat \<Rightarrow> rng \<Rightarrow> error + (individual list \<times> rng)" where
  "selRandom individuals 0 g = Inr ([], g)"
| "selRandom individuals (Suc k) g =
     ebind (random_choice individuals g) (\<lambda>(x, g').
     ebind (selRandom individuals k g') (\<lambda>(xs, g'').
       Inr (x # xs, g'')))"

definition max_by_fitness :: "individual list \<Rightarrow> error + individual" where
  "max_by_fitness aspirants =
     (case aspirants of
        [] \<Rightarrow> Inl ValueError
      | x # xs \<Rightarrow>
          Inr (foldl (\<lambda>best y. if fitness_gt (wvalues y) (wvalues best) then y else best) x xs))"

fun selTournament ::
  "individual list \<Rightarrow> nat \<Rightarrow> int \<Rightarrow> rng \<Rightarrow> error + (individual list \<times> rng)" where
  "selTournament individuals 0 tournsize g = Inr ([], g)"
| "selTournament individuals (Suc k) tournsize g =
     ebind (selRandom individuals (nat tournsize) g) (\<lambda>(aspirants, g').
     ebind (max_by_fitness aspirants) (\<lambda>winner.
     ebind (selTournament individuals k tournsize g') (\<lambda>(chosen, g'').
       Inr (winner # chosen, g''))))"

definition toolbox_select ::
  "VRPSolver \<Rightarrow> individual list \<Rightarrow> nat \<Rightarrow> rng \<Rightarrow> error + (individual list \<times> rng)" where
  "toolbox_select s individuals k g = selTournament individuals k (select_tournsize s) g"

section \<open>DEAP: variation, hall of fame, statistics and the generational loop\<close>

text \<open>
  \<open>algorithms.varAnd\<close>: the offspring are clones; for \<open>i\<close> in
  \<open>range(1, len(offspring), 2)\<close>, with probability \<open>cxpb\<close>, the pair \<open>i - 1, i\<close> is mated
  and both fitnesses are deleted; then every offspring is mutated with probability
  \<open>mutpb\<close> and its fitness deleted.
\<close>

fun varAnd_mate ::
  "nat list \<Rightarrow> real \<Rightarrow> individual list \<Rightarrow> rng \<Rightarrow> error + (individual list \<times> rng)" where
  "varAnd_mate [] cxpb offspring g = Inr (offspring, g)"
| "varAnd_mate (i # rest) cxpb offspring g =
     (case random_random g of
        (r, g1) \<Rightarrow>
          if r < cxpb
          then ebind (cxPartialyMatched (genes (offspring ! (i - 1))) (genes (offspring ! i)) g1)
                 (\<lambda>((child1, child2), g2).
                    varAnd_mate rest cxpb
                      (offspring[i - 1 := \<lparr>genes = child1, wvalues = []\<rparr>,
                                 i := \<lparr>genes = child2, wvalues = []\<rparr>]) g2)
          else varAnd_mate rest cxpb offspring g1)"

fun varAnd_mutate ::
  "nat list \<Rightarrow> real \<Rightarrow> individual list \<Rightarrow> rng \<Rightarrow> error + (individual list \<times> rng)" where
  "varAnd_mutate [] mutpb offspring g = Inr (offspring, g)"
| "varAnd_mutate (i # rest) mutpb offspring g =
     (case random_random g of
        (r, g1) \<Rightarrow>
          if r < mutpb
          then ebind (toolbox_mutate (genes (offspring ! i)) g1)
                 (\<lambda>(mutant, g2).
                    varAnd_mutate rest mutpb
                      (offspring[i := \<lparr>genes = mutant, wvalues = []\<rparr>]) g2)
          else varAnd_mutate rest mutpb offspring g1)"

definition varAnd ::
  "individual list \<Rightarrow> real \<Rightarrow> real \<Rightarrow> rng \<Rightarrow> error + (individual list \<times> rng)" where
  "varAnd population cxpb mutpb g =
     ebind (varAnd_mate (py_range3 1 (length population) 2) cxpb population g)
       (\<lambda>(offspring, g').
          varAnd_mutate [0..<length offspring] mutpb offspring g')"

text \<open>
  \<open>tools.HallOfFame(1)\<close>: it is empty or holds one deep copy. In \<open>update\<close>, an empty
  hall takes \<open>population[0]\<close> and goes on to the next individual; otherwise an individual
  whose fitness is greater than the member's replaces it, unless it is \<open>similar\<close> (equal
  as a list) to the member.
\<close>

fun hof_update_loop ::
  "individual list \<Rightarrow> individual list \<Rightarrow> individual option \<Rightarrow> individual option" where
  "hof_update_loop population [] hof = hof"
| "hof_update_loop population (ind # rest) hof =
     (case hof of
        None \<Rightarrow> hof_update_loop population rest (Some (population ! 0))
      | Some hofer \<Rightarrow>
          if fitness_gt (wvalues ind) (wvalues hofer)
          then (if genes ind = genes hofer
                then hof_update_loop population rest hof
                else hof_update_loop population rest (Some ind))
          else hof_update_loop population rest hof)"

definition hof_update :: "individual list \<Rightarrow> individual option \<Rightarrow> individual option" where
  "hof_update population hof = hof_update_loop population population hof"

text \<open>
  The statistics object that \<open>solve\<close> builds: the key is \<open>ind.fitness.values\<close> and the
  registered functions are \<open>avg = np.mean\<close>, \<open>min = np.min\<close>, \<open>max = np.max\<close>. The
  object holds these registrations only; \<open>compile\<close> applies them to the tuple of the
  fitness values of a population and returns one record, which \<open>eaSimple\<close> stores in
  its logbook. \<open>np.min\<close> and \<open>np.max\<close> raise on an empty array.
\<close>

record Statistics =
  stat_fields :: "string list"

definition solve_statistics :: Statistics where
  "solve_statistics = \<lparr>stat_fields = [''avg'', ''min'', ''max'']\<rparr>"

fun np_finite :: "npfloat list \<Rightarrow> real list option" where
  "np_finite [] = Some []"
| "np_finite (NaN # xs) = None"
| "np_finite (Num x # xs) = (case np_finite xs of None \<Rightarrow> None | Some ys \<Rightarrow> Some (x # ys))"

definition np_mean_all :: "npfloat list \<Rightarrow> npfloat" where
  "np_mean_all xs = (case np_finite xs of None \<Rightarrow> NaN | Some ys \<Rightarrow> np_mean ys)"

definition np_min :: "npfloat list \<Rightarrow> error + npfloat" where
  "np_min xs =
     (if xs = [] then Inl ValueError
      else case np_finite xs of None \<Rightarrow> Inr NaN | Some ys \<Rightarrow> Inr (Num (foldl min (hd ys) (tl ys))))"

definition np_max :: "npfloat list \<Rightarrow> error + npfloat" where
  "np_max xs =
     (if xs = [] then Inl ValueError
      else case np_finite xs of None \<Rightarrow> Inr NaN | Some ys \<Rightarrow> Inr (Num (foldl max (hd ys) (tl ys))))"

record logbook_entry =
  gen :: int
  nevals :: nat
  avg :: npfloat
  minimum :: npfloat
  maximum :: npfloat

definition stats_compile :: "individual list \<Rightarrow> error + (npfloat \<times> npfloat \<times> npfloat)" where
  "stats_compile population =
     (let values = concat (map (\<lambda>ind. getValues (wvalues ind)) population)
      in ebind (np_min values) (\<lambda>mn.
         ebind (np_max values) (\<lambda>mx.
           Inr (np_mean_all values, mn, mx))))"

text \<open>
  The state of \<open>eaSimple\<close>: the population, the hall of fame, the logbook and the
  generator. The first part evaluates the individuals with an invalid fitness, updates
  the hall of fame and records generation 0.
\<close>

record ea_state =
  ea_population :: "individual list"
  ea_hof :: "individual option"
  ea_logbook :: "logbook_entry list"
  ea_rng :: rng

definition evaluate_invalid :: "VRPSolver \<Rightarrow> individual list \<Rightarrow> error + individual list" where
  "evaluate_invalid s population =
     emap (\<lambda>ind. if fitness_valid ind then Inr ind else evaluate_individual s ind) population"

definition count_invalid :: "individual list \<Rightarrow> nat" where
  "count_invalid population = length (filter (\<lambda>ind. \<not> fitness_valid ind) population)"

definition ea_record ::
  "VRPSolver \<Rightarrow> int \<Rightarrow> individual list \<Rightarrow> ea_state \<Rightarrow> rng \<Rightarrow> error + ea_state" where
  "ea_record s generation candidates st g =
     ebind (evaluate_invalid s candidates) (\<lambda>evaluated.
       let hof = hof_update evaluated (ea_hof st)
       in ebind (stats_compile evaluated) (\<lambda>(av, mn, mx).
            Inr \<lparr>ea_population = evaluated, ea_hof = hof,
                 ea_logbook = ea_logbook st
                   @ [\<lparr>gen = generation, nevals = count_invalid candidates,
                        avg = av, minimum = mn, maximum = mx\<rparr>],
                 ea_rng = g\<rparr>))"

text \<open>
  One generation: select \<open>len(population)\<close> individuals, vary them, evaluate the
  invalid ones, update the hall of fame, replace the population, record the statistics.
\<close>

definition ea_generation ::
  "VRPSolver \<Rightarrow> real \<Rightarrow> real \<Rightarrow> int \<Rightarrow> ea_state \<Rightarrow> error + ea_state" where
  "ea_generation s cxpb mutpb generation st =
     ebind (toolbox_select s (ea_population st) (length (ea_population st)) (ea_rng st))
       (\<lambda>(selected, g1).
     ebind (varAnd selected cxpb mutpb g1) (\<lambda>(offspring, g2).
       ea_record s generation offspring st g2))"

fun ea_loop ::
  "VRPSolver \<Rightarrow> real \<Rightarrow> real \<Rightarrow> nat list \<Rightarrow> ea_state \<Rightarrow> error + ea_state" where
  "ea_loop s cxpb mutpb [] st = Inr st"
| "ea_loop s cxpb mutpb (k # rest) st =
     ebind (ea_generation s cxpb mutpb (int k) st) (ea_loop s cxpb mutpb rest)"

text \<open>\<open>algorithms.eaSimple\<close>; the generations are \<open>range(1, ngen + 1)\<close>.\<close>

definition eaSimple ::
  "VRPSolver \<Rightarrow> individual list \<Rightarrow> real \<Rightarrow> real \<Rightarrow> int \<Rightarrow> individual option \<Rightarrow> rng
     \<Rightarrow> error + ea_state" where
  "eaSimple s population cxpb mutpb ngen hof g =
     ebind (ea_record s 0 population
              \<lparr>ea_population = population, ea_hof = hof, ea_logbook = [], ea_rng = g\<rparr> g)
       (ea_loop s cxpb mutpb [1..<nat (ngen + 1)])"

section \<open>solve\<close>

text \<open>
  The keyword arguments of \<open>solve\<close> (without \<open>verbose\<close>, which only prints), and the
  tuple it returns: \<open>hof[0]\<close>, the population, the statistics object and the hall of
  fame. \<open>solve\<close> seeds the generator, registers tournament selection with the given
  size, creates the population and an empty hall of fame and runs \<open>eaSimple\<close>, whose
  return value (the population and the logbook) it does not use. The solver with its new
  registration and the generator are returned with the tuple.
\<close>

record ga_config =
  pop_size :: int
  cxpb :: real
  mutpb :: real
  ngen :: int
  tournsize :: int
  seed :: int

record solve_result =
  best_individual :: individual
  population :: "individual list"
  stats :: Statistics
  hall_of_fame :: "individual option"

definition solve ::
  "(int \<Rightarrow> nat \<Rightarrow> nat) \<Rightarrow> VRPSolver \<Rightarrow> rng \<Rightarrow> ga_config
     \<Rightarrow> error + (solve_result \<times> VRPSolver \<times> rng)" where
  "solve mt s g0 cfg =
     (let g = random_seed mt (seed cfg);
          s' = s\<lparr>select_tournsize := tournsize cfg\<rparr>
      in case toolbox_population s' (pop_size cfg) g of
           (pop, g') \<Rightarrow>
             ebind (eaSimple s' pop (cxpb cfg) (mutpb cfg) (ngen cfg) None g') (\<lambda>st.
               case ea_hof st of
                 None \<Rightarrow> Inl IndexError
               | Some b \<Rightarrow>
                   Inr (\<lparr>best_individual = b, population = ea_population st,
                         stats = solve_statistics, hall_of_fame = ea_hof st\<rparr>,
                        s', ea_rng st)))"

section \<open>The decoder and the evaluator as the specification words them\<close>

text \<open>
  An individual whose entries are all indices into the location list (every
  permutation of \<open>0..num_locations-1\<close> is one).
\<close>

definition valid_indices :: "VRPSolver \<Rightarrow> int list \<Rightarrow> bool" where
  "valid_indices s individual =
     list_all (\<lambda>v. 0 \<le> v \<and> v < int (length (locations s))) individual"

text \<open>
  Route \<open>i\<close> in the words of the specification: the depot, the locations at the
  permutation positions \<open>j\<close> with \<open>j mod num_vehicles = i\<close> in permutation order, the depot.
\<close>

definition spec_route :: "VRPSolver \<Rightarrow> int list \<Rightarrow> nat \<Rightarrow> point list" where
  "spec_route s individual i =
     [depot s]
     @ map (\<lambda>j. locations s ! nat (individual ! j))
         (filter (\<lambda>j. j mod nat (num_vehicles s) = i) [0..<length individual])
     @ [depot s]"

text \<open>Euclidean distance, and the length of a route as the sum over its consecutive points.\<close>

definition euclid :: "point \<Rightarrow> point \<Rightarrow> real" where
  "euclid p q = sqrt ((fst p - fst q)\<^sup>2 + (snd p - snd q)\<^sup>2)"

fun route_length :: "point list \<Rightarrow> real" where
  "route_length (p # q # rest) = euclid p q + route_length (q # rest)"
| "route_length _ = 0"

text \<open>The per-vehicle distances, and the population standard deviation (divisor \<open>n\<close>).\<close>

definition spec_distances :: "VRPSolver \<Rightarrow> int list \<Rightarrow> real list" where
  "spec_distances s individual =
     map (\<lambda>i. route_length (spec_route s individual i)) [0..<nat (num_vehicles s)]"

definition population_std :: "real list \<Rightarrow> real" where
  "population_std xs =
     (let n = real (length xs); mean = sum_list xs / n
      in sqrt (sum_list (map (\<lambda>x. (x - mean)\<^sup>2) xs) / n))"

section \<open>Predicates of the statements\<close>

text \<open>A list that holds every index \<open>0..n-1\<close> exactly once.\<close>

definition is_permutation :: "nat \<Rightarrow> int list \<Rightarrow> bool" where
  "is_permutation n xs = (mset xs = mset (map int [0..<n]))"

definition permutation_genes :: "nat \<Rightarrow> individual \<Rightarrow> bool" where
  "permutation_genes n ind = is_permutation n (genes ind)"

definition permutation_state :: "nat \<Rightarrow> ea_state \<Rightarrow> bool" where
  "permutation_state n st =
     (list_all (permutation_genes n) (ea_population st)
      \<and> (case ea_hof st of None \<Rightarrow> True | Some h \<Rightarrow> permutation_genes n h))"

text \<open>
  The invariant of the crossover loop: \<open>p\<close> gives, for every value, its position in
  the permutation \<open>ind\<close>.
\<close>

definition inverse_table :: "nat \<Rightarrow> int list \<Rightarrow> int list \<Rightarrow> bool" where
  "inverse_table n ind p =
     (is_permutation n ind \<and> length p = n \<and> list_all (\<lambda>j. p ! nat (ind ! j) = int j) [0..<n])"

text \<open>
  The order of the specification on pairs (total distance, balance penalty):
  lexicographic, the distance first. \<open>fitness_pair\<close> reads the pair of an evaluated
  individual back from its fitness, as \<open>ind.fitness.values\<close> does.
\<close>

definition lex_less :: "real \<times> real \<Rightarrow> real \<times> real \<Rightarrow> bool" where
  "lex_less v w = (fst v < fst w \<or> (fst v = fst w \<and> snd v < snd w))"

definition lex_le :: "real \<times> real \<Rightarrow> real \<times> real \<Rightarrow> bool" where
  "lex_le v w = (fst v < fst w \<or> (fst v = fst w \<and> snd v \<le> snd w))"

fun pair_of_values :: "npfloat list \<Rightarrow> (real \<times> real) option" where
  "pair_of_values [Num t, Num b] = Some (t, b)"
| "pair_of_values _ = None"

definition fitness_pair :: "individual \<Rightarrow> (real \<times> real) option" where
  "fitness_pair ind = pair_of_values (getValues (wvalues ind))"

text \<open>
  An individual that carries the fitness which the evaluator computes for its genes, with
  a finite balance penalty; and a state of the generational loop in which the population
  and the member of the hall of fame are such individuals.
\<close>

definition scored :: "VRPSolver \<Rightarrow> individual \<Rightarrow> bool" where
  "scored s ind =
     (case evaluate_vrp s (genes ind) of
        Inr (t, Num b) \<Rightarrow> wvalues ind = setValues [Num t, Num b]
      | _ \<Rightarrow> False)"

definition scored_state :: "VRPSolver \<Rightarrow> ea_state \<Rightarrow> bool" where
  "scored_state s st =
     (list_all (scored s) (ea_population st)
      \<and> (case ea_hof st of None \<Rightarrow> True | Some h \<Rightarrow> scored s h))"

text \<open>
  A state of the generational loop whose hall of fame holds a best individual of the
  population: the state is scored, the hall of fame has a member, and no individual of
  the population is better than the member in the order of \<open>base.Fitness\<close>.
\<close>

definition hof_best :: "VRPSolver \<Rightarrow> ea_state \<Rightarrow> bool" where
  "hof_best s st =
     (scored_state s st
      \<and> (case ea_hof st of
            None \<Rightarrow> False
          | Some h \<Rightarrow> list_all (\<lambda>x. fitness_le (wvalues x) (wvalues h)) (ea_population st)))"

text \<open>
  A generator for concrete runs: the raw outcomes are the entries of \<open>xs\<close> and, after
  them, the absolute value of the seed.
\<close>

definition tape_mt :: "nat list \<Rightarrow> int \<Rightarrow> nat \<Rightarrow> nat" where
  "tape_mt xs sd i = (if i < length xs then xs ! i else nat \<bar>sd\<bar>)"

section \<open>Ranges, comprehensions and loops\<close>

lemma mod_between: "a < j \<Longrightarrow> j < a + k \<Longrightarrow> (j::nat) mod k \<noteq> a mod k"
proof
  assume a: "a < j" "j < a + k" "j mod k = a mod k"
  then have "(j - a) mod k = 0"
    by (metis mod_eq_dvd_iff_nat less_imp_le_nat mod_0_imp_dvd dvd_imp_mod_0)
  moreover have "0 < j - a" "j - a < k" using a by auto
  ultimately show False by simp
qed

lemma filter_skip:
  assumes "0 < k"
  shows "filter (\<lambda>j. j mod k = a mod k) [Suc a..<n] = filter (\<lambda>j. j mod k = a mod k) [a + k..<n]"
proof (cases "a + k \<le> n")
  case True
  then obtain d where d: "n = (a + k) + d"
    using le_Suc_ex by blast
  have "Suc a \<le> a + k" using assms by simp
  then have "[Suc a..<n] = [Suc a..<a + k] @ [a + k..<n]"
    unfolding d by (rule upt_add_eq_append)
  moreover have "filter (\<lambda>j. j mod k = a mod k) [Suc a..<a + k] = []"
    using mod_between[of a _ k] by (auto simp: filter_empty_conv Suc_le_eq)
  ultimately show ?thesis by simp
next
  case False
  then have "filter (\<lambda>j. j mod k = a mod k) [Suc a..<n] = []"
    using mod_between[of a _ k] by (auto simp: filter_empty_conv Suc_le_eq)
  with False show ?thesis by simp
qed

lemma py_range3_filter:
  "0 < k \<Longrightarrow> py_range3 a n k = filter (\<lambda>j. j mod k = a mod k) [a..<n]"
proof (induction a n k rule: py_range3.induct)
  case (1 start stop step)
  show ?case
  proof (cases "stop \<le> start")
    case True
    then show ?thesis by (simp add: py_range3.simps)
  next
    case False
    then have up: "[start..<stop] = start # [Suc start..<stop]"
      by (simp add: upt_conv_Cons)
    have "py_range3 start stop step = start # py_range3 (start + step) stop step"
      using False 1 by (subst py_range3.simps) simp
    also have "py_range3 (start + step) stop step
        = filter (\<lambda>j. j mod step = (start + step) mod step) [start + step..<stop]"
      using 1 False by simp
    also have "\<dots> = filter (\<lambda>j. j mod step = start mod step) [Suc start..<stop]"
      using filter_skip[OF 1(2), of start stop] by simp
    finally show ?thesis using up by simp
  qed
qed

lemma emap_all_Inr:
  "(\<And>x. x \<in> set xs \<Longrightarrow> f x = Inr (g x)) \<Longrightarrow> emap f xs = Inr (map g xs)"
  by (induction xs) auto

lemma routes_loop_emap:
  "routes_loop s ind is rs = ebind (emap (vehicle_route s ind) is) (\<lambda>new. Inr (rs @ new))"
proof (induction "is" arbitrary: rs)
  case Nil
  then show ?case by simp
next
  case (Cons i rest)
  show ?case
  proof (cases "vehicle_route s ind i")
    case (Inl e)
    then show ?thesis by simp
  next
    case (Inr r)
    then show ?thesis
      by (cases "emap (vehicle_route s ind) rest") (simp_all add: Cons.IH)
  qed
qed

lemma evaluate_loop_emap:
  "evaluate_loop s ind is (t, ds) =
     ebind (emap (vehicle_route s ind) is)
       (\<lambda>new. Inr (foldl (+) t (map vehicle_distance new), ds @ map vehicle_distance new))"
proof (induction "is" arbitrary: t ds)
  case Nil
  then show ?case by simp
next
  case (Cons i rest)
  show ?case
  proof (cases "vehicle_route s ind i")
    case (Inl e)
    then show ?thesis by simp
  next
    case (Inr r)
    then show ?thesis
      by (cases "emap (vehicle_route s ind) rest") (simp_all add: Cons.IH)
  qed
qed


lemma py_index_nat: "j < length xs \<Longrightarrow> py_index xs (int j) = Inr (xs ! j)"
  by (simp add: py_index_def)

lemma py_index_valid:
  "0 \<le> v \<Longrightarrow> v < int (length xs) \<Longrightarrow> py_index xs v = Inr (xs ! nat v)"
  by (simp add: py_index_def)

lemma vehicle_route_valid:
  assumes "valid_indices s ind" "i < nat (num_vehicles s)"
  shows "vehicle_route s ind i = Inr (spec_route s ind i)"
proof -
  let ?k = "nat (num_vehicles s)"
  have k: "0 < ?k" using assms(2) by simp
  have r: "py_range3 i (length ind) ?k = filter (\<lambda>j. j mod ?k = i) [i..<length ind]"
    using py_range3_filter[OF k, of i "length ind"] assms(2) by simp
  have "filter (\<lambda>j. j mod ?k = i) [0..<i] = []"
    using assms(2) by (auto simp: filter_empty_conv)
  moreover have "[0..<length ind] = [0..<i] @ [i..<length ind]" if "i \<le> length ind"
    using that upt_add_eq_append[of 0 i "length ind - i"] by simp
  moreover have "[i..<length ind] = []" "filter (\<lambda>j. j mod ?k = i) [0..<length ind] = []" if "\<not> i \<le> length ind"
    using that assms(2) by (auto simp: filter_empty_conv)
  ultimately have r': "py_range3 i (length ind) ?k = filter (\<lambda>j. j mod ?k = i) [0..<length ind]"
    using r by (cases "i \<le> length ind") auto
  have "emap (\<lambda>j. ebind (py_index ind (int j)) (py_index (locations s)))
          (filter (\<lambda>j. j mod ?k = i) [0..<length ind])
        = Inr (map (\<lambda>j. locations s ! nat (ind ! j)) (filter (\<lambda>j. j mod ?k = i) [0..<length ind]))"
  proof (rule emap_all_Inr)
    fix j assume "j \<in> set (filter (\<lambda>j. j mod ?k = i) [0..<length ind])"
    then have j: "j < length ind" by simp
    then have "ind ! j \<in> set ind" by simp
    then have "0 \<le> ind ! j" "ind ! j < int (length (locations s))"
      using assms(1) by (auto simp: valid_indices_def list_all_iff)
    then show "ebind (py_index ind (int j)) (py_index (locations s)) = Inr (locations s ! nat (ind ! j))"
      using j by (simp add: py_index_nat py_index_valid)
  qed
  then show ?thesis
    by (simp add: vehicle_route_def r' spec_route_def)
qed

lemma get_vehicle_routes_valid:
  assumes "valid_indices s ind"
  shows "get_vehicle_routes s ind = Inr (map (spec_route s ind) [0..<nat (num_vehicles s)])"
proof -
  have "emap (vehicle_route s ind) [0..<nat (num_vehicles s)]
      = Inr (map (spec_route s ind) [0..<nat (num_vehicles s)])"
    by (rule emap_all_Inr) (simp add: vehicle_route_valid[OF assms])
  then show ?thesis
    by (simp add: get_vehicle_routes_def py_range_def routes_loop_emap)
qed

lemma foldl_plus_real: "foldl (+) a xs = a + sum_list (xs :: real list)"
  by (induction xs arbitrary: a) simp_all

lemma py_sum_sum_list: "py_sum xs = sum_list xs"
  by (simp add: py_sum_def foldl_plus_real)

lemma norm_diff_euclid: "norm_diff q p = euclid p q"
  by (simp add: norm_diff_def euclid_def power2_commute)

lemma vehicle_distance_Cons2:
  "vehicle_distance (p # q # rest) = norm_diff q p + vehicle_distance (q # rest)"
proof -
  have "[0..<Suc (length rest)] = 0 # map Suc [0..<length rest]"
    by (simp add: upt_conv_Cons map_Suc_upt del: upt_Suc)
  then show ?thesis
    by (simp add: vehicle_distance_def py_sum_sum_list comp_def del: upt_Suc)
qed

lemma vehicle_distance_route_length: "vehicle_distance r = route_length r"
proof (induction r rule: route_length.induct)
  case (1 p q rest)
  then show ?case by (simp add: vehicle_distance_Cons2 norm_diff_euclid)
qed (simp_all add: vehicle_distance_def py_sum_def)

lemma np_std_population:
  "xs \<noteq> [] \<Longrightarrow> np_std xs = Num (population_std xs)"
  by (simp add: np_std_def np_mean_def population_std_def py_sum_sum_list Let_def)

lemma evaluate_loop_valid:
  assumes "valid_indices s ind"
  shows "evaluate_loop s ind (py_range (num_vehicles s)) (0, [])
       = Inr (sum_list (spec_distances s ind), spec_distances s ind)"
proof -
  have "emap (vehicle_route s ind) [0..<nat (num_vehicles s)]
      = Inr (map (spec_route s ind) [0..<nat (num_vehicles s)])"
    by (rule emap_all_Inr) (simp add: vehicle_route_valid[OF assms])
  then show ?thesis
    by (simp add: py_range_def evaluate_loop_emap foldl_plus_real spec_distances_def
          comp_def vehicle_distance_route_length)
qed

lemma evaluate_vrp_valid:
  assumes "valid_indices s ind" "1 \<le> num_vehicles s"
  shows "evaluate_vrp s ind
       = Inr (sum_list (spec_distances s ind), Num (population_std (spec_distances s ind)))"
proof -
  have "spec_distances s ind \<noteq> []"
    using assms(2) by (simp add: spec_distances_def)
  then show ?thesis
    by (simp add: evaluate_vrp_def evaluate_loop_valid[OF assms(1)] np_std_population)
qed

lemma sqrt_100: "sqrt 100 = 10"
  using real_sqrt_abs[of 10] by simp

lemma spec_route_empty:
  assumes "length ind \<le> i" "i < nat (num_vehicles s)"
  shows "spec_route s ind i = [depot s, depot s]"
proof -
  have "filter (\<lambda>j. j mod nat (num_vehicles s) = i) [0..<length ind] = []"
    using assms by (auto simp: filter_empty_conv)
  then show ?thesis by (simp add: spec_route_def)
qed

lemma sum_list_all_zero: "(\<And>x. x \<in> set xs \<Longrightarrow> f x = (0::real)) \<Longrightarrow> sum_list (map f xs) = 0"
  by (induction xs) simp_all

lemma spec_distances_tail:
  "sum_list (spec_distances s ind) = sum_list (take (length ind) (spec_distances s ind))"
proof -
  let ?ds = "spec_distances s ind"
  have "drop (length ind) ?ds
      = map (\<lambda>i. route_length (spec_route s ind i)) [length ind..<nat (num_vehicles s)]"
    by (simp add: spec_distances_def drop_map)
  moreover have "sum_list (map (\<lambda>i. route_length (spec_route s ind i)) [length ind..<nat (num_vehicles s)]) = 0"
    by (rule sum_list_all_zero) (simp add: spec_route_empty euclid_def)
  moreover have "sum_list ?ds = sum_list (take (length ind) ?ds) + sum_list (drop (length ind) ?ds)"
    by (metis append_take_drop_id sum_list_append)
  ultimately show ?thesis by simp
qed

section \<open>Permutations: sampling, mutation and crossover\<close>

lemma randbelow_less: "0 < n \<Longrightarrow> randbelow n g = (j, g') \<Longrightarrow> j < n"
  by (auto simp: randbelow_def split: prod.splits)

lemma sample_loop_mset:
  assumes "length pool = n" "i \<le> n"
    and "sample_loop [i..<n] n pool result g = (res, g')"
  shows "mset res = mset result + mset (take (n - i) pool)"
  using assms
proof (induction "n - i" arbitrary: i pool result g)
  case 0
  then show ?case by simp
next
  case (Suc d)
  then have i: "i < n" by simp
  obtain j g1 where j: "randbelow (n - i) g = (j, g1)" by (cases "randbelow (n - i) g")
  have jl: "j < n - i" using randbelow_less[OF _ j] i by simp
  let ?pool = "pool[j := pool ! (n - i - 1)]"
  have rec: "sample_loop [Suc i..<n] n ?pool (result @ [pool ! j]) g1 = (res, g')"
    using Suc.prems(3) i j by (simp add: upt_conv_Cons)
  have "mset res = mset (result @ [pool ! j]) + mset (take (n - Suc i) ?pool)"
    using Suc.hyps(2) Suc.prems(1) i
    by (intro Suc.hyps(1)[OF _ _ _ rec]) auto
  moreover have "take (n - i) pool = take (n - Suc i) pool @ [pool ! (n - Suc i)]"
    using i Suc.prems(1) take_Suc_conv_app_nth[of "n - Suc i" pool] by (simp add: Suc_diff_Suc)
  moreover have "mset (take (n - Suc i) ?pool) + {#pool ! j#}
      = mset (take (n - Suc i) pool) + {#pool ! (n - Suc i)#}"
  proof (cases "j = n - Suc i")
    case True
    then show ?thesis by simp
  next
    case False
    then have jj: "j < n - Suc i" using jl by simp
    then have "take (n - Suc i) ?pool = (take (n - Suc i) pool)[j := pool ! (n - Suc i)]"
      by (simp add: take_update_swap)
    moreover have "j < length (take (n - Suc i) pool)" using jj Suc.prems(1) by simp
    moreover have "take (n - Suc i) pool ! j = pool ! j" using jj by simp
    moreover have "take (n - Suc i) pool ! j \<in># mset (take (n - Suc i) pool)"
      using jj Suc.prems(1) by (intro nth_mem_mset) simp
    ultimately show ?thesis
      by (simp add: mset_update)
  qed
  ultimately show ?case by simp
qed

lemma random_sample_range_permutation:
  "random_sample_range n g = (perm, g') \<Longrightarrow> is_permutation n perm"
  using sample_loop_mset[of "map int [0..<n]" n 0 "[]" g perm g']
  by (simp add: random_sample_range_def is_permutation_def)

lemma py_setitem_valid:
  "0 \<le> v \<Longrightarrow> v < int (length xs) \<Longrightarrow> py_setitem xs v x = Inr (xs[nat v := x])"
  by (simp add: py_setitem_def)

lemma perm_length: "is_permutation n xs \<Longrightarrow> length xs = n"
  using mset_eq_length[of xs "map int [0..<n]"] by (simp add: is_permutation_def)

lemma perm_set: "is_permutation n xs \<Longrightarrow> set xs = int ` {0..<n}"
  using mset_eq_setD[of xs "map int [0..<n]"] by (simp add: is_permutation_def)

lemma perm_distinct: "is_permutation n xs \<Longrightarrow> distinct xs"
  using mset_eq_imp_distinct_iff[of xs "map int [0..<n]"]
  by (simp add: is_permutation_def distinct_map)

lemma perm_nth: "is_permutation n xs \<Longrightarrow> j < n \<Longrightarrow> 0 \<le> xs ! j \<and> xs ! j < int n"
proof -
  assume a: "is_permutation n xs" "j < n"
  then have "xs ! j \<in> set xs" by (simp add: perm_length)
  then show ?thesis using perm_set[OF a(1)] by auto
qed

lemma randint_range:
  assumes "randint a b g = Inr (x, g')"
  shows "a \<le> x \<and> x \<le> b"
proof -
  from assms have pos: "0 < b + 1 - a"
    by (auto simp: randint_def split: if_splits)
  with assms obtain r where x: "x = a + int (r mod nat (b + 1 - a))"
    by (auto simp: randint_def randbelow_def split: prod.splits)
  have "r mod nat (b + 1 - a) < nat (b + 1 - a)" using pos by simp
  then have "int (r mod nat (b + 1 - a)) < b + 1 - a" using pos by linarith
  then show ?thesis using x by simp
qed

lemma randint_total: "a \<le> b \<Longrightarrow> \<exists>x g'. randint a b g = Inr (x, g')"
  by (simp add: randint_def split: prod.splits)

lemma mut_loop_mset:
  assumes "set is \<subseteq> {0..<length ind}" "sz = length ind"
    and "mut_loop is sz indpb ind g = Inr (m, g')"
  shows "mset m = mset ind"
  using assms
proof (induction "is" arbitrary: ind g)
  case Nil
  then show ?case by simp
next
  case (Cons i rest)
  obtain r g1 where r: "random_random g = (r, g1)" by (cases "random_random g")
  have i: "i < length ind" using Cons.prems(1) by simp
  show ?case
  proof (cases "r < indpb")
    case False
    then show ?thesis using Cons r by simp
  next
    case True
    then obtain r2 g2 where r2: "randint 0 (int sz - 2) g1 = Inr (r2, g2)"
      using Cons.prems(3) r by (cases "randint 0 (int sz - 2) g1") auto
    define sw where "sw = (if r2 \<ge> int i then r2 + 1 else r2)"
    have sw: "0 \<le> sw" "sw < int (length ind)"
      using randint_range[OF r2] Cons.prems(2) i by (auto simp: sw_def)
    let ?ind = "ind[i := ind ! nat sw, nat sw := ind ! i]"
    have rec: "mut_loop rest sz indpb ?ind g2 = Inr (m, g')"
      using Cons.prems(3) r True r2 sw i
      by (simp add: sw_def[symmetric] py_index_valid py_setitem_valid Let_def)
    have "mset m = mset ?ind"
      using Cons.prems(1,2) by (intro Cons.IH[OF _ _ rec]) auto
    also have "\<dots> = mset ind"
      using sw i by (intro mset_swap) auto
    finally show ?thesis .
  qed
qed

lemma mutShuffleIndexes_permutation:
  "is_permutation n ind \<Longrightarrow> mutShuffleIndexes ind indpb g = Inr (m, g') \<Longrightarrow> is_permutation n m"
  using mut_loop_mset[of "[0..<length ind]" ind "length ind" indpb g m g']
  by (simp add: mutShuffleIndexes_def is_permutation_def)

lemma inverse_tableD:
  assumes "inverse_table n ind p"
  shows "is_permutation n ind" "length ind = n" "length p = n"
    "\<And>j. j < n \<Longrightarrow> p ! nat (ind ! j) = int j"
  using assms by (auto simp: inverse_table_def list_all_iff perm_length)

lemma inverse_table_pos:
  assumes "inverse_table n ind p" "0 \<le> u" "u < int n"
  shows "0 \<le> p ! nat u" "p ! nat u < int n" "ind ! nat (p ! nat u) = u"
proof -
  note d = inverse_tableD[OF assms(1)]
  have "u \<in> set ind" using perm_set[OF d(1)] assms(2,3)
    by (metis atLeastLessThan_iff image_eqI int_nat_eq nat_less_iff le0)
  then obtain j where j: "j < n" "ind ! j = u"
    using d(2) by (auto simp: in_set_conv_nth)
  then have "p ! nat u = int j" using d(4) by auto
  then show "0 \<le> p ! nat u" "p ! nat u < int n" "ind ! nat (p ! nat u) = u"
    using j by auto
qed

lemma inverse_table_swap:
  assumes inv: "inverse_table n ind p" and i: "i < n" and u: "0 \<le> u" "u < int n"
  defines "t \<equiv> ind ! i" and "k \<equiv> nat (p ! nat u)"
  shows "inverse_table n (ind[i := u, k := t]) (p[nat t := p ! nat u, nat u := p ! nat t])"
proof -
  note d = inverse_tableD[OF inv]
  note q = inverse_table_pos[OF inv u]
  have t: "0 \<le> t" "t < int n" using perm_nth[OF d(1) i] by (auto simp: t_def)
  have k: "k < n" "ind ! k = u" "p ! nat u = int k" using q by (auto simp: k_def)
  have pt: "p ! nat t = int i" using d(4)[OF i] by (simp add: t_def)
  have dist: "distinct ind" by (rule perm_distinct[OF d(1)])
  have "ind[i := u, k := t] = ind[i := ind ! k, k := ind ! i]"
    by (simp add: k t_def)
  moreover have "mset (ind[i := ind ! k, k := ind ! i]) = mset ind"
    using i k(1) d(2) by (intro mset_swap) auto
  ultimately have perm: "is_permutation n (ind[i := u, k := t])"
    using d(1) by (simp add: is_permutation_def)
  have "(p[nat t := p ! nat u, nat u := p ! nat t]) ! nat ((ind[i := u, k := t]) ! j) = int j"
    if j: "j < n" for j
  proof -
    consider "j = k" | "j \<noteq> k" "j = i" | "j \<noteq> k" "j \<noteq> i" by blast
    then show ?thesis
    proof cases
      case 1
      then have "(ind[i := u, k := t]) ! j = t" using k(1) d(2) by simp
      moreover have "(p[nat t := p ! nat u, nat u := p ! nat t]) ! nat t = int k"
      proof (cases "t = u")
        case True
        then show ?thesis using pt k(3) t d(3) by simp
      next
        case False
        then have "nat t \<noteq> nat u" using t u by auto
        then show ?thesis using k(3) t d(3) by simp
      qed
      ultimately show ?thesis using 1 by simp
    next
      case 2
      then have "(ind[i := u, k := t]) ! j = u" using i d(2) by simp
      then show ?thesis using pt u d(3) 2 by simp
    next
      case 3
      then have e: "(ind[i := u, k := t]) ! j = ind ! j" by simp
      have "ind ! j \<noteq> t" "ind ! j \<noteq> u"
        using 3 dist j i k(1,2) d(2) by (auto simp: t_def nth_eq_iff_index_eq)
      moreover have "0 \<le> ind ! j" using perm_nth[OF d(1) j] by simp
      ultimately have "nat (ind ! j) \<noteq> nat t" "nat (ind ! j) \<noteq> nat u"
        using t u by auto
      then show ?thesis using e d(4)[OF j] by simp
    qed
  qed
  then show ?thesis
    using perm d(3) by (simp add: inverse_table_def list_all_iff)
qed

lemma update_twice_commute:
  "xs[a := xs ! b, b := xs ! a] = xs[b := xs ! a, a := xs ! b]"
  by (cases "a = b") (simp_all add: list_update_swap)

lemma pmx_step_inv:
  assumes a: "inverse_table n ind1 p1" and b: "inverse_table n ind2 p2" and i: "i < n"
  shows "\<exists>ind1' ind2' p1' p2'.
           pmx_step i (ind1, ind2, p1, p2) = Inr (ind1', ind2', p1', p2')
         \<and> inverse_table n ind1' p1' \<and> inverse_table n ind2' p2'"
proof -
  note da = inverse_tableD[OF a] and db = inverse_tableD[OF b]
  define t1 where "t1 = ind1 ! i"
  define t2 where "t2 = ind2 ! i"
  have t1: "0 \<le> t1" "t1 < int n" using perm_nth[OF da(1) i] by (auto simp: t1_def)
  have t2: "0 \<le> t2" "t2 < int n" using perm_nth[OF db(1) i] by (auto simp: t2_def)
  note q1 = inverse_table_pos[OF a t2] and q2 = inverse_table_pos[OF b t1]
  let ?ind1 = "ind1[i := t2, nat (p1 ! nat t2) := t1]"
  let ?ind2 = "ind2[i := t1, nat (p2 ! nat t1) := t2]"
  let ?p1 = "p1[nat t1 := p1 ! nat t2, nat t2 := p1 ! nat t1]"
  let ?p2 = "p2[nat t1 := p2 ! nat t2, nat t2 := p2 ! nat t1]"
  have i1: "py_index ind1 (int i) = Inr t1" "py_index ind2 (int i) = Inr t2"
    using i da(2) db(2) by (simp_all add: py_index_def t1_def t2_def)
  have step: "pmx_step i (ind1, ind2, p1, p2) = Inr (?ind1, ?ind2, ?p1, ?p2)"
    unfolding pmx_step_def
    using i da(2,3) db(2,3) t1 t2 q1(1,2) q2(1,2)
    by (simp add: i1 py_index_valid py_setitem_valid)
  have "inverse_table n ?ind1 ?p1"
    using inverse_table_swap[OF a i t2] by (simp add: t1_def)
  moreover have "inverse_table n ?ind2 (p2[nat t2 := p2 ! nat t1, nat t1 := p2 ! nat t2])"
    using inverse_table_swap[OF b i t1] by (simp add: t2_def)
  then have "inverse_table n ?ind2 ?p2"
    by (simp add: update_twice_commute[of p2 "nat t1" "nat t2"])
  ultimately show ?thesis using step by blast
qed

lemma pmx_loop_inv:
  assumes "inverse_table n ind1 p1" "inverse_table n ind2 p2" "set is \<subseteq> {0..<n}"
  shows "\<exists>ind1' ind2' p1' p2'.
           pmx_loop is (ind1, ind2, p1, p2) = Inr (ind1', ind2', p1', p2')
         \<and> inverse_table n ind1' p1' \<and> inverse_table n ind2' p2'"
  using assms
proof (induction "is" arbitrary: ind1 ind2 p1 p2)
  case Nil
  then show ?case by simp
next
  case (Cons i rest)
  then have "i < n" by simp
  from pmx_step_inv[OF Cons.prems(1,2) this]
  obtain j1 j2 q1 q2 where s: "pmx_step i (ind1, ind2, p1, p2) = Inr (j1, j2, q1, q2)"
      "inverse_table n j1 q1" "inverse_table n j2 q2" by blast
  from Cons.IH[OF s(2,3)] Cons.prems(3) s(1) show ?case by simp
qed

lemma pmx_positions_inv:
  assumes "is_permutation n ind1" "is_permutation n ind2" "i \<le> n"
    and "length p1 = n" "length p2 = n"
    and "\<And>j. j < i \<Longrightarrow> p1 ! nat (ind1 ! j) = int j"
    and "\<And>j. j < i \<Longrightarrow> p2 ! nat (ind2 ! j) = int j"
  shows "\<exists>p1' p2'. pmx_positions [i..<n] ind1 ind2 (p1, p2) = Inr (p1', p2')
          \<and> inverse_table n ind1 p1' \<and> inverse_table n ind2 p2'"
  using assms(3-)
proof (induction "n - i" arbitrary: i p1 p2)
  case 0
  then have "i = n" by simp
  then show ?case using 0 assms(1,2) by (simp add: inverse_table_def list_all_iff)
next
  case (Suc d)
  then have i: "i < n" by simp
  note l1 = perm_length[OF assms(1)] and l2 = perm_length[OF assms(2)]
  note r1 = perm_nth[OF assms(1) i] and r2 = perm_nth[OF assms(2) i]
  let ?p1 = "p1[nat (ind1 ! i) := int i]"
  let ?p2 = "p2[nat (ind2 ! i) := int i]"
  have step: "pmx_positions [i..<n] ind1 ind2 (p1, p2)
      = pmx_positions [Suc i..<n] ind1 ind2 (?p1, ?p2)"
    using i l1 l2 r1 r2 Suc.prems(2,3)
    by (simp add: upt_conv_Cons py_index_def py_setitem_valid)
  have k1: "?p1 ! nat (ind1 ! j) = int j" if "j < Suc i" for j
  proof (cases "j = i")
    case True
    then show ?thesis using r1 Suc.prems(2) by (simp add: nat_less_iff)
  next
    case False
    then have ji: "j < i" using that by simp
    have "ind1 ! j \<noteq> ind1 ! i"
      using perm_distinct[OF assms(1)] False i that l1 by (simp add: nth_eq_iff_index_eq)
    moreover have "0 \<le> ind1 ! j" using perm_nth[OF assms(1), of j] that i by simp
    ultimately have "nat (ind1 ! i) \<noteq> nat (ind1 ! j)" using r1 by auto
    then show ?thesis using Suc.prems(4)[OF ji] by simp
  qed
  have k2: "?p2 ! nat (ind2 ! j) = int j" if "j < Suc i" for j
  proof (cases "j = i")
    case True
    then show ?thesis using r2 Suc.prems(3) by (simp add: nat_less_iff)
  next
    case False
    then have ji: "j < i" using that by simp
    have "ind2 ! j \<noteq> ind2 ! i"
      using perm_distinct[OF assms(2)] False i that l2 by (simp add: nth_eq_iff_index_eq)
    moreover have "0 \<le> ind2 ! j" using perm_nth[OF assms(2), of j] that i by simp
    ultimately have "nat (ind2 ! i) \<noteq> nat (ind2 ! j)" using r2 by auto
    then show ?thesis using Suc.prems(5)[OF ji] by simp
  qed
  have "\<exists>p1' p2'. pmx_positions [Suc i..<n] ind1 ind2 (?p1, ?p2) = Inr (p1', p2')
          \<and> inverse_table n ind1 p1' \<and> inverse_table n ind2 p2'"
    using Suc.hyps(2) i Suc.prems(2,3) k1 k2
    by (intro Suc.hyps(1)) auto
  then show ?case using step by simp
qed

lemma cxPartialyMatched_permutation:
  assumes "is_permutation n ind1" "is_permutation n ind2"
    and "cxPartialyMatched ind1 ind2 g = Inr ((child1, child2), g')"
  shows "is_permutation n child1 \<and> is_permutation n child2"
proof -
  note l1 = perm_length[OF assms(1)] and l2 = perm_length[OF assms(2)]
  obtain p1 p2 where pos: "pmx_positions [0..<n] ind1 ind2 (replicate n 0, replicate n 0) = Inr (p1, p2)"
      "inverse_table n ind1 p1" "inverse_table n ind2 p2"
    using pmx_positions_inv[OF assms(1,2), of 0 "replicate n 0" "replicate n 0"] by auto
  obtain c1 g1 where c1: "randint 0 (int n) g = Inr (c1, g1)"
    using assms(3) pos(1) l1 l2 by (cases "randint 0 (int n) g") (auto simp: cxPartialyMatched_def)
  obtain c2 g2 where c2: "randint 0 (int n - 1) g1 = Inr (c2, g2)"
    using assms(3) pos(1) l1 l2 c1
    by (cases "randint 0 (int n - 1) g1") (auto simp: cxPartialyMatched_def)
  define a b where "a = (if c2 \<ge> c1 then c1 else c2)" and "b = (if c2 \<ge> c1 then c2 + 1 else c1)"
  have "set [nat a..<nat b] \<subseteq> {0..<n}"
    using randint_range[OF c1] randint_range[OF c2] by (auto simp: a_def b_def)
  from pmx_loop_inv[OF pos(2,3) this]
  obtain j1 j2 q1 q2 where lp: "pmx_loop [nat a..<nat b] (ind1, ind2, p1, p2) = Inr (j1, j2, q1, q2)"
      "inverse_table n j1 q1" "inverse_table n j2 q2" by blast
  have "cxPartialyMatched ind1 ind2 g = Inr ((j1, j2), g2)"
    using pos(1) c1 c2 lp(1) l1 l2
    by (auto simp: cxPartialyMatched_def a_def b_def)
  then show ?thesis using assms(3) lp(2,3) by (auto simp: inverse_table_def)
qed

lemma cxPartialyMatched_total:
  assumes "is_permutation n ind1" "is_permutation n ind2" "0 < n"
  shows "\<exists>child1 child2 g'. cxPartialyMatched ind1 ind2 g = Inr ((child1, child2), g')"
proof -
  note l1 = perm_length[OF assms(1)] and l2 = perm_length[OF assms(2)]
  obtain p1 p2 where pos: "pmx_positions [0..<n] ind1 ind2 (replicate n 0, replicate n 0) = Inr (p1, p2)"
      "inverse_table n ind1 p1" "inverse_table n ind2 p2"
    using pmx_positions_inv[OF assms(1,2), of 0 "replicate n 0" "replicate n 0"] by auto
  obtain c1 g1 where c1: "randint 0 (int n) g = Inr (c1, g1)"
    using randint_total[of 0 "int n" g] by auto
  obtain c2 g2 where c2: "randint 0 (int n - 1) g1 = Inr (c2, g2)"
    using randint_total[of 0 "int n - 1" g1] assms(3) by auto
  define a b where "a = (if c2 \<ge> c1 then c1 else c2)" and "b = (if c2 \<ge> c1 then c2 + 1 else c1)"
  have "set [nat a..<nat b] \<subseteq> {0..<n}"
    using randint_range[OF c1] randint_range[OF c2] by (auto simp: a_def b_def)
  from pmx_loop_inv[OF pos(2,3) this]
  obtain j1 j2 q1 q2 where lp: "pmx_loop [nat a..<nat b] (ind1, ind2, p1, p2) = Inr (j1, j2, q1, q2)"
    by blast
  have "cxPartialyMatched ind1 ind2 g = Inr ((j1, j2), g2)"
    using pos(1) c1 c2 lp(1) l1 l2
    by (auto simp: cxPartialyMatched_def a_def b_def)
  then show ?thesis by blast
qed

section \<open>Selection, variation and the permutation invariant of a run\<close>

lemma random_choice_mem: "random_choice seq g = Inr (x, g') \<Longrightarrow> x \<in> set seq"
  by (auto simp: random_choice_def randbelow_def split: if_splits prod.splits)

lemma selRandom_subset:
  "selRandom individuals k g = Inr (xs, g') \<Longrightarrow> set xs \<subseteq> set individuals \<and> length xs = k"
proof (induction k arbitrary: g g' xs)
  case 0
  then show ?case by simp
next
  case (Suc k)
  from Suc.prems obtain x g1 where x: "random_choice individuals g = Inr (x, g1)"
    by (cases "random_choice individuals g") auto
  with Suc.prems obtain ys g2 where ys: "selRandom individuals k g1 = Inr (ys, g2)"
    by (cases "selRandom individuals k g1") auto
  with Suc.prems x have "xs = x # ys" by simp
  then show ?case using Suc.IH[OF ys] random_choice_mem[OF x] by simp
qed

lemma foldl_pick_mem:
  "foldl (\<lambda>best y. if Q y best then y else best) x xs \<in> insert x (set xs)"
  by (induction xs arbitrary: x) (auto split: if_splits)

lemma max_by_fitness_mem: "max_by_fitness xs = Inr w \<Longrightarrow> w \<in> set xs"
  using foldl_pick_mem[of "\<lambda>y best. fitness_gt (wvalues y) (wvalues best)"]
  by (auto simp: max_by_fitness_def split: list.splits)

lemma selTournament_subset:
  "selTournament individuals k ts g = Inr (chosen, g')
     \<Longrightarrow> set chosen \<subseteq> set individuals \<and> length chosen = k"
proof (induction k arbitrary: g g' chosen)
  case 0
  then show ?case by simp
next
  case (Suc k)
  from Suc.prems obtain asp g1 where a: "selRandom individuals (nat ts) g = Inr (asp, g1)"
    by (cases "selRandom individuals (nat ts) g") auto
  with Suc.prems obtain w where w: "max_by_fitness asp = Inr w"
    by (cases "max_by_fitness asp") auto
  from Suc.prems a w obtain ys g2 where ys: "selTournament individuals k ts g1 = Inr (ys, g2)"
    by (cases "selTournament individuals k ts g1") auto
  with Suc.prems a w have "chosen = w # ys" by simp
  moreover have "w \<in> set individuals"
    using max_by_fitness_mem[OF w] selRandom_subset[OF a] by auto
  ultimately show ?case using Suc.IH[OF ys] by simp
qed

lemma varAnd_mate_all:
  assumes "list_all P offspring" "set is \<subseteq> {1..<length offspring}"
    and closure: "\<And>x y g c1 c2 g'. P x \<Longrightarrow> P y
          \<Longrightarrow> cxPartialyMatched (genes x) (genes y) g = Inr ((c1, c2), g')
          \<Longrightarrow> P \<lparr>genes = c1, wvalues = []\<rparr> \<and> P \<lparr>genes = c2, wvalues = []\<rparr>"
    and "varAnd_mate is cp offspring g = Inr (res, g')"
  shows "list_all P res \<and> length res = length offspring"
  using assms(1,2,4)
proof (induction "is" arbitrary: offspring g)
  case Nil
  then show ?case by simp
next
  case (Cons i rest)
  obtain r g1 where r: "random_random g = (r, g1)" by (cases "random_random g")
  have i: "1 \<le> i" "i < length offspring" using Cons.prems(2) by auto
  show ?case
  proof (cases "r < cp")
    case False
    then show ?thesis using Cons r by simp
  next
    case True
    let ?x = "offspring ! (i - 1)" and ?y = "offspring ! i"
    from True Cons.prems(3) r obtain c1 c2 g2
      where c: "cxPartialyMatched (genes ?x) (genes ?y) g1 = Inr ((c1, c2), g2)"
      by (cases "cxPartialyMatched (genes ?x) (genes ?y) g1") auto
    let ?off = "offspring[i - 1 := \<lparr>genes = c1, wvalues = []\<rparr>, i := \<lparr>genes = c2, wvalues = []\<rparr>]"
    have rec: "varAnd_mate rest cp ?off g2 = Inr (res, g')"
      using Cons.prems(3) r True c by simp
    have "P ?x" "P ?y" using Cons.prems(1) i by (auto simp: list_all_length)
    from closure[OF this c] have "list_all P ?off"
      using Cons.prems(1) by (auto simp: list_all_iff dest!: set_update_subset_insert[THEN subsetD])
    moreover have "set rest \<subseteq> {1..<length ?off}" using Cons.prems(2) by simp
    ultimately show ?thesis using Cons.IH[OF _ _ rec] by simp
  qed
qed

lemma varAnd_mutate_all:
  assumes "list_all P offspring" "set is \<subseteq> {0..<length offspring}"
    and closure: "\<And>x g m g'. P x \<Longrightarrow> toolbox_mutate (genes x) g = Inr (m, g')
          \<Longrightarrow> P \<lparr>genes = m, wvalues = []\<rparr>"
    and "varAnd_mutate is mp offspring g = Inr (res, g')"
  shows "list_all P res \<and> length res = length offspring"
  using assms(1,2,4)
proof (induction "is" arbitrary: offspring g)
  case Nil
  then show ?case by simp
next
  case (Cons i rest)
  obtain r g1 where r: "random_random g = (r, g1)" by (cases "random_random g")
  have i: "i < length offspring" using Cons.prems(2) by auto
  show ?case
  proof (cases "r < mp")
    case False
    then show ?thesis using Cons r by simp
  next
    case True
    let ?x = "offspring ! i"
    from True Cons.prems(3) r obtain m g2
      where c: "toolbox_mutate (genes ?x) g1 = Inr (m, g2)"
      by (cases "toolbox_mutate (genes ?x) g1") auto
    let ?off = "offspring[i := \<lparr>genes = m, wvalues = []\<rparr>]"
    have rec: "varAnd_mutate rest mp ?off g2 = Inr (res, g')"
      using Cons.prems(3) r True c by simp
    have "P ?x" using Cons.prems(1) i by (auto simp: list_all_length)
    from closure[OF this c] have "list_all P ?off"
      using Cons.prems(1) by (auto simp: list_all_iff dest!: set_update_subset_insert[THEN subsetD])
    moreover have "set rest \<subseteq> {0..<length ?off}" using Cons.prems(2) by simp
    ultimately show ?thesis using Cons.IH[OF _ _ rec] by simp
  qed
qed

lemma py_range3_pairs: "set (py_range3 1 n 2) \<subseteq> {1..<n}"
  using py_range3_filter[of 2 1 n] by auto

lemma varAnd_all:
  assumes "list_all P pop"
    and "\<And>x y g c1 c2 g'. P x \<Longrightarrow> P y
          \<Longrightarrow> cxPartialyMatched (genes x) (genes y) g = Inr ((c1, c2), g')
          \<Longrightarrow> P \<lparr>genes = c1, wvalues = []\<rparr> \<and> P \<lparr>genes = c2, wvalues = []\<rparr>"
    and "\<And>x g m g'. P x \<Longrightarrow> toolbox_mutate (genes x) g = Inr (m, g')
          \<Longrightarrow> P \<lparr>genes = m, wvalues = []\<rparr>"
    and "varAnd pop cp mp g = Inr (res, g')"
  shows "list_all P res \<and> length res = length pop"
proof -
  from assms(4) obtain off g1
    where m: "varAnd_mate (py_range3 1 (length pop) 2) cp pop g = Inr (off, g1)"
    by (cases "varAnd_mate (py_range3 1 (length pop) 2) cp pop g") (auto simp: varAnd_def)
  then have mu: "varAnd_mutate [0..<length off] mp off g1 = Inr (res, g')"
    using assms(4) by (simp add: varAnd_def)
  have 1: "list_all P off \<and> length off = length pop"
    by (rule varAnd_mate_all[OF assms(1) py_range3_pairs _ m]) (fact assms(2))
  have "list_all P res \<and> length res = length off"
    by (rule varAnd_mutate_all[OF _ _ _ mu]) (use 1 assms(3) in auto)
  with 1 show ?thesis by simp
qed

lemma emap_list_all2:
  "emap f xs = Inr ys \<Longrightarrow> list_all2 (\<lambda>x y. f x = Inr y) xs ys"
proof (induction xs arbitrary: ys)
  case Nil
  then show ?case by simp
next
  case (Cons x xs)
  from Cons.prems obtain y where y: "f x = Inr y" by (cases "f x") auto
  with Cons.prems obtain zs where zs: "emap f xs = Inr zs" by (cases "emap f xs") auto
  with Cons.prems y have "ys = y # zs" by simp
  then show ?case using y Cons.IH[OF zs] by simp
qed

lemma evaluate_individual_genes:
  "evaluate_individual s x = Inr y \<Longrightarrow> genes y = genes x"
  by (cases "evaluate_vrp s (genes x)") (auto simp: evaluate_individual_def)

lemma evaluate_invalid_genes:
  assumes "evaluate_invalid s pop = Inr ev"
  shows "map genes ev = map genes pop"
proof -
  have "list_all2 (\<lambda>x y. (if fitness_valid x then Inr x else evaluate_individual s x) = Inr y) pop ev"
    using emap_list_all2 assms unfolding evaluate_invalid_def by fast
  then have "list_all2 (\<lambda>x y. genes y = genes x) pop ev"
    by (rule list_all2_mono) (auto split: if_splits dest: evaluate_individual_genes)
  then show ?thesis
    by (induction pop ev rule: list_all2_induct) auto
qed

lemma evaluate_invalid_permutation:
  assumes "evaluate_invalid s pop = Inr ev" "list_all (permutation_genes n) pop"
  shows "list_all (permutation_genes n) ev"
proof -
  have "list_all (is_permutation n) (map genes pop)"
    using assms(2) by (simp add: list_all_iff permutation_genes_def)
  then have "list_all (is_permutation n) (map genes ev)"
    using evaluate_invalid_genes[OF assms(1)] by simp
  then show ?thesis by (simp add: list_all_iff permutation_genes_def)
qed

lemma hof_update_loop_mem:
  "hof_update_loop pop rest hof = Some h \<Longrightarrow> pop \<noteq> [] \<or> rest = []
     \<Longrightarrow> h \<in> set rest \<or> h \<in> set pop \<or> hof = Some h"
proof (induction rest arbitrary: hof)
  case Nil
  then show ?case by simp
next
  case (Cons ind rest)
  then have ne: "pop \<noteq> []" by simp
  then have p0: "pop ! 0 \<in> set pop" by simp
  show ?case
  proof (cases hof)
    case None
    then have "hof_update_loop pop rest (Some (pop ! 0)) = Some h" using Cons.prems by simp
    from Cons.IH[OF this] ne p0 show ?thesis by auto
  next
    case (Some hofer)
    then consider "hof_update_loop pop rest (Some ind) = Some h"
      | "hof_update_loop pop rest hof = Some h"
      using Cons.prems(1) by (auto split: if_splits)
    then show ?thesis
    proof cases
      case 1
      from Cons.IH[OF this] ne show ?thesis by auto
    next
      case 2
      from Cons.IH[OF this] ne show ?thesis by auto
    qed
  qed
qed

lemma hof_update_mem:
  "hof_update pop hof = Some h \<Longrightarrow> h \<in> set pop \<or> hof = Some h"
  using hof_update_loop_mem[of pop pop hof h] by (cases pop) (auto simp: hof_update_def)

lemma ea_record_permutation:
  assumes "ea_record s k cands st g = Inr st'"
    and "list_all (permutation_genes n) cands"
    and "case ea_hof st of None \<Rightarrow> True | Some h \<Rightarrow> permutation_genes n h"
  shows "permutation_state n st'"
proof -
  from assms(1) obtain ev where ev: "evaluate_invalid s cands = Inr ev"
    by (cases "evaluate_invalid s cands") (auto simp: ea_record_def)
  with assms(1) obtain rec where "stats_compile ev = Inr rec"
    by (cases "stats_compile ev") (auto simp: ea_record_def)
  with assms(1) ev have st': "ea_population st' = ev" "ea_hof st' = hof_update ev (ea_hof st)"
    by (auto simp: ea_record_def split: prod.splits)
  have p: "list_all (permutation_genes n) ev"
    by (rule evaluate_invalid_permutation[OF ev assms(2)])
  have "permutation_genes n h" if "hof_update ev (ea_hof st) = Some h" for h
    using hof_update_mem[OF that] p assms(3) by (auto simp: list_all_iff)
  then show ?thesis using p st' by (simp add: permutation_state_def split: option.splits)
qed

lemma permutation_genes_mate:
  assumes "permutation_genes n x" "permutation_genes n y"
    and "cxPartialyMatched (genes x) (genes y) g = Inr ((c1, c2), g')"
  shows "permutation_genes n \<lparr>genes = c1, wvalues = []\<rparr>
       \<and> permutation_genes n \<lparr>genes = c2, wvalues = []\<rparr>"
  using cxPartialyMatched_permutation[OF _ _ assms(3), of n] assms(1,2)
  by (simp add: permutation_genes_def)

lemma permutation_genes_mutate:
  assumes "permutation_genes n x" "toolbox_mutate (genes x) g = Inr (m, g')"
  shows "permutation_genes n \<lparr>genes = m, wvalues = []\<rparr>"
  using mutShuffleIndexes_permutation[of n "genes x" "5 / 100" g m g'] assms
  by (simp add: permutation_genes_def toolbox_mutate_def)

lemma ea_generation_permutation:
  assumes "ea_generation s cp mp k st = Inr st'" "permutation_state n st"
  shows "permutation_state n st'"
proof -
  let ?pop = "ea_population st"
  from assms(1) obtain sel g1
    where sel: "toolbox_select s ?pop (length ?pop) (ea_rng st) = Inr (sel, g1)"
    by (cases "toolbox_select s ?pop (length ?pop) (ea_rng st)") (auto simp: ea_generation_def)
  with assms(1) obtain off g2 where off: "varAnd sel cp mp g1 = Inr (off, g2)"
    by (cases "varAnd sel cp mp g1") (auto simp: ea_generation_def)
  with assms(1) sel have rec: "ea_record s k off st g2 = Inr st'"
    by (simp add: ea_generation_def)
  have "set sel \<subseteq> set ?pop"
    using selTournament_subset sel unfolding toolbox_select_def by blast
  then have "list_all (permutation_genes n) sel"
    using assms(2) by (auto simp: permutation_state_def list_all_iff)
  then have "list_all (permutation_genes n) off \<and> length off = length sel"
  proof (rule varAnd_all[OF _ _ _ off])
    fix x y g c1 c2 g'
    assume "permutation_genes n x" "permutation_genes n y"
      "cxPartialyMatched (genes x) (genes y) g = Inr ((c1, c2), g')"
    then show "permutation_genes n \<lparr>genes = c1, wvalues = []\<rparr>
       \<and> permutation_genes n \<lparr>genes = c2, wvalues = []\<rparr>"
      by (rule permutation_genes_mate)
  next
    fix x g m g'
    assume "permutation_genes n x" "toolbox_mutate (genes x) g = Inr (m, g')"
    then show "permutation_genes n \<lparr>genes = m, wvalues = []\<rparr>"
      by (rule permutation_genes_mutate)
  qed
  then show ?thesis
    using ea_record_permutation[OF rec] assms(2) by (simp add: permutation_state_def)
qed

lemma ea_loop_permutation:
  "ea_loop s cp mp gens st = Inr st' \<Longrightarrow> permutation_state n st \<Longrightarrow> permutation_state n st'"
proof (induction gens arbitrary: st)
  case Nil
  then show ?case by simp
next
  case (Cons k rest)
  from Cons.prems(1) obtain st1 where st1: "ea_generation s cp mp (int k) st = Inr st1"
    by (cases "ea_generation s cp mp (int k) st") auto
  with Cons.prems(1) have "ea_loop s cp mp rest st1 = Inr st'" by simp
  from Cons.IH[OF this ea_generation_permutation[OF st1 Cons.prems(2)]] show ?case .
qed

lemma initRepeat_all:
  assumes "\<And>g x g'. func g = (x, g') \<Longrightarrow> P x"
  shows "initRepeat k func g = (xs, g') \<Longrightarrow> list_all P xs \<and> length xs = k"
proof (induction k arbitrary: g xs g')
  case 0
  then show ?case by simp
next
  case (Suc k)
  obtain x g1 where x: "func g = (x, g1)" by (cases "func g")
  obtain ys g2 where ys: "initRepeat k func g1 = (ys, g2)" by (cases "initRepeat k func g1")
  with Suc.prems x have "xs = x # ys" by simp
  then show ?case using assms[OF x] Suc.IH[OF ys] by simp
qed

lemma toolbox_population_fresh:
  assumes "toolbox_population s k g = (pop, g')"
  shows "list_all (\<lambda>ind. permutation_genes (num_locations s) ind \<and> wvalues ind = []) pop
       \<and> length pop = nat k"
proof (rule initRepeat_all[OF _ assms[unfolded toolbox_population_def]])
  fix g x g' assume "toolbox_individual s g = (x, g')"
  then show "permutation_genes (num_locations s) x \<and> wvalues x = []"
    using random_sample_range_permutation[of "num_locations s" g]
    by (auto simp: toolbox_individual_def permutation_genes_def split: prod.splits)
qed

lemma eaSimple_permutation:
  assumes "eaSimple s pop cp mp ng None g = Inr st" "list_all (permutation_genes n) pop"
  shows "permutation_state n st"
proof -
  let ?st0 = "\<lparr>ea_population = pop, ea_hof = None, ea_logbook = [], ea_rng = g\<rparr>"
  from assms(1) obtain st1 where st1: "ea_record s 0 pop ?st0 g = Inr st1"
    by (cases "ea_record s 0 pop ?st0 g") (auto simp: eaSimple_def)
  with assms(1) have lp: "ea_loop s cp mp [1..<nat (ng + 1)] st1 = Inr st"
    by (simp add: eaSimple_def)
  have "permutation_state n st1"
    by (rule ea_record_permutation[OF st1 assms(2)]) simp
  from ea_loop_permutation[OF lp this] show ?thesis .
qed

lemma solve_permutation:
  assumes "solve mt s g cfg = Inr (r, s', g')"
  shows "list_all (permutation_genes (num_locations s)) (best_individual r # population r)"
proof -
  let ?s = "s\<lparr>select_tournsize := tournsize cfg\<rparr>"
  obtain pop g1 where pop: "toolbox_population ?s (pop_size cfg) (random_seed mt (seed cfg)) = (pop, g1)"
    by (cases "toolbox_population ?s (pop_size cfg) (random_seed mt (seed cfg))")
  with assms obtain st where st: "eaSimple ?s pop (cxpb cfg) (mutpb cfg) (ngen cfg) None g1 = Inr st"
    by (cases "eaSimple ?s pop (cxpb cfg) (mutpb cfg) (ngen cfg) None g1") (auto simp: solve_def Let_def)
  with assms pop obtain b where b: "ea_hof st = Some b" "best_individual r = b"
      "population r = ea_population st"
    by (auto simp: solve_def Let_def split: option.splits)
  have "list_all (permutation_genes (num_locations s)) pop"
    using toolbox_population_fresh[OF pop] by (simp add: list_all_iff)
  from eaSimple_permutation[OF st this] b show ?thesis
    by (simp add: permutation_state_def)
qed

section \<open>The fitness order and the hall of fame\<close>

lemma scoredD:
  assumes "scored s x"
  obtains t b where "evaluate_vrp s (genes x) = Inr (t, Num b)"
    "wvalues x = [Num (- t), Num (- b)]" "fitness_pair x = Some (t, b)"
proof -
  from assms obtain t b where e: "evaluate_vrp s (genes x) = Inr (t, Num b)"
    and w: "wvalues x = setValues [Num t, Num b]"
    by (auto simp: scored_def split: sum.splits prod.splits npfloat.splits)
  show ?thesis
    by (rule that[OF e]) (simp_all add: w setValues_def getValues_def FitnessMin_weights_def fitness_pair_def)
qed

lemma fitness_le_pairs:
  "fitness_le [Num (- t), Num (- b)] [Num (- t'), Num (- b')] \<longleftrightarrow> lex_le (t', b') (t, b)"
  by (auto simp: fitness_le_def lex_le_def)

lemma scored_same_genes:
  "scored s x \<Longrightarrow> scored s y \<Longrightarrow> genes x = genes y \<Longrightarrow> wvalues x = wvalues y"
  by (auto elim!: scoredD)

lemma scored_le_refl: "scored s x \<Longrightarrow> fitness_le (wvalues x) (wvalues x)"
  by (auto elim!: scoredD simp: fitness_le_pairs lex_le_def)

lemma scored_le_total:
  "scored s x \<Longrightarrow> scored s y \<Longrightarrow> \<not> fitness_le (wvalues x) (wvalues y)
     \<Longrightarrow> fitness_le (wvalues y) (wvalues x)"
  by (auto elim!: scoredD simp: fitness_le_pairs lex_le_def)

lemma scored_le_trans:
  "scored s x \<Longrightarrow> scored s y \<Longrightarrow> scored s z \<Longrightarrow> fitness_le (wvalues x) (wvalues y)
     \<Longrightarrow> fitness_le (wvalues y) (wvalues z) \<Longrightarrow> fitness_le (wvalues x) (wvalues z)"
  by (elim scoredD) (auto simp: fitness_le_pairs lex_le_def)

lemma hof_update_loop_best:
  assumes "list_all (scored s) rest" "scored s h"
  shows "\<exists>h'. hof_update_loop pop rest (Some h) = Some h'
           \<and> h' \<in> insert h (set rest)
           \<and> fitness_le (wvalues h) (wvalues h')
           \<and> (\<forall>x \<in> set rest. fitness_le (wvalues x) (wvalues h'))"
  using assms
proof (induction rest arbitrary: h)
  case Nil
  then show ?case by (simp add: scored_le_refl)
next
  case (Cons ind rest)
  then have si: "scored s ind" and sr: "list_all (scored s) rest" by simp_all
  show ?case
  proof (cases "fitness_gt (wvalues ind) (wvalues h)")
    case True
    then have nle: "\<not> fitness_le (wvalues ind) (wvalues h)" by (simp add: fitness_gt_def)
    then have "genes ind \<noteq> genes h"
      using scored_same_genes[OF si Cons.prems(2)] scored_le_refl[OF si] by auto
    then have step: "hof_update_loop pop (ind # rest) (Some h) = hof_update_loop pop rest (Some ind)"
      using True by simp
    from Cons.IH[OF sr si] obtain h' where h': "hof_update_loop pop rest (Some ind) = Some h'"
        "h' \<in> insert ind (set rest)" "fitness_le (wvalues ind) (wvalues h')"
        "\<forall>x \<in> set rest. fitness_le (wvalues x) (wvalues h')" by blast
    have sh': "scored s h'" using h'(2) si sr by (auto simp: list_all_iff)
    have "fitness_le (wvalues h) (wvalues ind)"
      by (rule scored_le_total[OF si Cons.prems(2) nle])
    then have "fitness_le (wvalues h) (wvalues h')"
      using scored_le_trans[OF Cons.prems(2) si sh'] h'(3) by blast
    then show ?thesis using step h' by auto
  next
    case False
    then have le: "fitness_le (wvalues ind) (wvalues h)" by (simp add: fitness_gt_def)
    have step: "hof_update_loop pop (ind # rest) (Some h) = hof_update_loop pop rest (Some h)"
      using False by simp
    from Cons.IH[OF sr Cons.prems(2)] obtain h' where h': "hof_update_loop pop rest (Some h) = Some h'"
        "h' \<in> insert h (set rest)" "fitness_le (wvalues h) (wvalues h')"
        "\<forall>x \<in> set rest. fitness_le (wvalues x) (wvalues h')" by blast
    have sh': "scored s h'" using h'(2) Cons.prems(2) sr by (auto simp: list_all_iff)
    have "fitness_le (wvalues ind) (wvalues h')"
      using scored_le_trans[OF si Cons.prems(2) sh' le h'(3)] .
    then show ?thesis using step h' by auto
  qed
qed

lemma hof_update_best:
  assumes "list_all (scored s) pop" "case hof of None \<Rightarrow> pop \<noteq> [] | Some h \<Rightarrow> scored s h"
  shows "\<exists>h'. hof_update pop hof = Some h' \<and> scored s h'
           \<and> (h' \<in> set pop \<or> hof = Some h')
           \<and> (\<forall>h. hof = Some h \<longrightarrow> fitness_le (wvalues h) (wvalues h'))
           \<and> (\<forall>x \<in> set pop. fitness_le (wvalues x) (wvalues h'))"
proof (cases hof)
  case (Some h)
  then have sh: "scored s h" using assms(2) by simp
  from hof_update_loop_best[OF assms(1) sh, of pop] obtain h'
    where h': "hof_update_loop pop pop (Some h) = Some h'" "h' \<in> insert h (set pop)"
      "fitness_le (wvalues h) (wvalues h')" "\<forall>x \<in> set pop. fitness_le (wvalues x) (wvalues h')"
    by blast
  then have "scored s h'" using sh assms(1) by (auto simp: list_all_iff)
  then show ?thesis using h' Some by (auto simp: hof_update_def)
next
  case None
  then obtain x xs where pop: "pop = x # xs" using assms(2) by (cases pop) auto
  then have sx: "scored s x" and sxs: "list_all (scored s) xs" using assms(1) by simp_all
  from hof_update_loop_best[OF sxs sx, of pop] obtain h'
    where h': "hof_update_loop pop xs (Some x) = Some h'" "h' \<in> insert x (set xs)"
      "fitness_le (wvalues x) (wvalues h')" "\<forall>y \<in> set xs. fitness_le (wvalues y) (wvalues h')"
    by blast
  then have "scored s h'" using sx sxs by (auto simp: list_all_iff)
  moreover have "hof_update pop hof = Some h'"
    using h'(1) None pop by (simp add: hof_update_def)
  ultimately show ?thesis using h' None pop by auto
qed

lemma emap_length: "emap f xs = Inr ys \<Longrightarrow> length ys = length xs"
  using emap_list_all2[of f xs ys] by (simp add: list_all2_lengthD)

lemma evaluate_vrp_finite:
  assumes "1 \<le> num_vehicles s" "evaluate_vrp s gs = Inr (t, b)"
  shows "\<exists>x. b = Num x"
proof -
  from assms(2) obtain new where new: "emap (vehicle_route s gs) (py_range (num_vehicles s)) = Inr new"
    by (cases "emap (vehicle_route s gs) (py_range (num_vehicles s))")
      (auto simp: evaluate_vrp_def evaluate_loop_emap)
  then have "b = np_std (map vehicle_distance new)"
    using assms(2) by (simp add: evaluate_vrp_def evaluate_loop_emap)
  moreover have "map vehicle_distance new \<noteq> []"
    using emap_length[OF new] assms(1) by (auto simp: py_range_def)
  ultimately show ?thesis by (simp add: np_std_population)
qed

lemma evaluate_individual_scored:
  assumes "1 \<le> num_vehicles s" "evaluate_individual s x = Inr y"
  shows "scored s y"
proof -
  from assms(2) obtain t b where e: "evaluate_vrp s (genes x) = Inr (t, b)"
    and y: "y = x\<lparr>wvalues := setValues [Num t, b]\<rparr>"
    by (cases "evaluate_vrp s (genes x)") (auto simp: evaluate_individual_def)
  from evaluate_vrp_finite[OF assms(1) e] obtain v where "b = Num v" by blast
  then show ?thesis using e y by (simp add: scored_def)
qed

lemma list_all2_transfer:
  assumes "list_all2 R xs ys" "list_all P xs" "\<And>x y. P x \<Longrightarrow> R x y \<Longrightarrow> Q y"
  shows "list_all Q ys"
  using assms(1,2) by (induction rule: list_all2_induct) (auto intro: assms(3))

lemma evaluate_invalid_scored:
  assumes "1 \<le> num_vehicles s" "list_all (\<lambda>x. wvalues x = [] \<or> scored s x) cands"
    and "evaluate_invalid s cands = Inr ev"
  shows "list_all (scored s) ev"
proof -
  have "list_all2 (\<lambda>x y. (if fitness_valid x then Inr x else evaluate_individual s x) = Inr y) cands ev"
    using emap_list_all2 assms(3) unfolding evaluate_invalid_def by fast
  then show ?thesis
  proof (rule list_all2_transfer[OF _ assms(2)])
    fix x y
    assume "wvalues x = [] \<or> scored s x"
      and "(if fitness_valid x then Inr x else evaluate_individual s x) = Inr y"
    then show "scored s y"
      using evaluate_individual_scored[OF assms(1), of x y]
      by (auto simp: fitness_valid_def split: if_splits)
  qed
qed

lemma stats_compile_nonempty: "stats_compile pop = Inr r \<Longrightarrow> list_all (scored s) pop \<Longrightarrow> pop \<noteq> []"
  by (cases pop) (auto simp: stats_compile_def np_min_def)

lemma ea_record_scored:
  assumes nv: "1 \<le> num_vehicles s"
    and pre: "list_all (\<lambda>x. wvalues x = [] \<or> scored s x) cands"
    and hof: "case ea_hof st of None \<Rightarrow> True | Some h \<Rightarrow> scored s h"
    and run: "ea_record s k cands st g = Inr st'"
  shows "scored_state s st'
     \<and> (\<exists>h'. ea_hof st' = Some h'
           \<and> (h' \<in> set (ea_population st') \<or> ea_hof st = Some h')
           \<and> (\<forall>h. ea_hof st = Some h \<longrightarrow> fitness_le (wvalues h) (wvalues h'))
           \<and> (\<forall>x \<in> set (ea_population st'). fitness_le (wvalues x) (wvalues h')))"
proof -
  from run obtain ev where ev: "evaluate_invalid s cands = Inr ev"
    by (cases "evaluate_invalid s cands") (auto simp: ea_record_def)
  with run obtain rec where rec: "stats_compile ev = Inr rec"
    by (cases "stats_compile ev") (auto simp: ea_record_def)
  with run ev have st': "ea_population st' = ev" "ea_hof st' = hof_update ev (ea_hof st)"
    by (auto simp: ea_record_def split: prod.splits)
  have sc: "list_all (scored s) ev" by (rule evaluate_invalid_scored[OF nv pre ev])
  have "case ea_hof st of None \<Rightarrow> ev \<noteq> [] | Some h \<Rightarrow> scored s h"
    using hof stats_compile_nonempty[OF rec sc] by (auto split: option.splits)
  from hof_update_best[OF sc this] show ?thesis
    using st' sc by (auto simp: scored_state_def)
qed

lemma ea_generation_scored:
  assumes nv: "1 \<le> num_vehicles s" and inv: "scored_state s st"
    and run: "ea_generation s cp mp k st = Inr st'"
  shows "scored_state s st'
     \<and> (\<exists>h'. ea_hof st' = Some h'
           \<and> (h' \<in> set (ea_population st') \<or> ea_hof st = Some h')
           \<and> (\<forall>h. ea_hof st = Some h \<longrightarrow> fitness_le (wvalues h) (wvalues h'))
           \<and> (\<forall>x \<in> set (ea_population st'). fitness_le (wvalues x) (wvalues h')))"
proof -
  let ?pop = "ea_population st"
  let ?pre = "\<lambda>x. wvalues x = [] \<or> scored s x"
  from run obtain sel g1
    where sel: "toolbox_select s ?pop (length ?pop) (ea_rng st) = Inr (sel, g1)"
    by (cases "toolbox_select s ?pop (length ?pop) (ea_rng st)") (auto simp: ea_generation_def)
  with run obtain off g2 where off: "varAnd sel cp mp g1 = Inr (off, g2)"
    by (cases "varAnd sel cp mp g1") (auto simp: ea_generation_def)
  with run sel have rec: "ea_record s k off st g2 = Inr st'"
    by (simp add: ea_generation_def)
  have "set sel \<subseteq> set ?pop"
    using selTournament_subset sel unfolding toolbox_select_def by blast
  then have "list_all ?pre sel"
    using inv by (auto simp: scored_state_def list_all_iff)
  then have "list_all ?pre off \<and> length off = length sel"
    by (rule varAnd_all[OF _ _ _ off]) simp_all
  then show ?thesis
    using ea_record_scored[OF nv _ _ rec] inv by (simp add: scored_state_def)
qed

lemma scored_le_lex:
  assumes "scored s h" "scored s h'" "fitness_le (wvalues h) (wvalues h')"
  shows "\<exists>v v'. fitness_pair h = Some v \<and> fitness_pair h' = Some v' \<and> lex_le v' v"
  using assms by (elim scoredD) (auto simp: fitness_le_pairs)

section \<open>Runs of solve\<close>

lemma random_random_tape:
  "random_random (tape_mt xs sd, k)
     = (real ((if k < length xs then xs ! k else nat \<bar>sd\<bar>) mod 2 ^ 53) / 2 ^ 53,
        (tape_mt xs sd, Suc k))"
  by (simp add: random_random_def rng_next_def tape_mt_def)

lemma randbelow_tape:
  "randbelow n (tape_mt xs sd, k)
     = ((if k < length xs then xs ! k else nat \<bar>sd\<bar>) mod n, (tape_mt xs sd, Suc k))"
  by (simp add: randbelow_def rng_next_def tape_mt_def)

lemma initRepeat_numeral:
  "initRepeat (numeral k) func g =
     (case func g of
        (x, g') \<Rightarrow> (case initRepeat (pred_numeral k) func g' of (xs, g'') \<Rightarrow> (x # xs, g'')))"
  by (simp add: numeral_eq_Suc)

lemma selRandom_numeral:
  "selRandom individuals (numeral k) g =
     ebind (random_choice individuals g) (\<lambda>(x, g').
     ebind (selRandom individuals (pred_numeral k) g') (\<lambda>(xs, g'').
       Inr (x # xs, g'')))"
  by (simp add: numeral_eq_Suc)

lemma selTournament_numeral:
  "selTournament individuals (numeral k) ts g =
     ebind (selRandom individuals (nat ts) g) (\<lambda>(aspirants, g').
     ebind (max_by_fitness aspirants) (\<lambda>winner.
     ebind (selTournament individuals (pred_numeral k) ts g') (\<lambda>(chosen, g'').
       Inr (winner # chosen, g''))))"
  by (simp add: numeral_eq_Suc)

lemmas run_defs = solve_def toolbox_population_def toolbox_individual_def random_sample_range_def
  eaSimple_def ea_record_def evaluate_invalid_def evaluate_individual_def fitness_valid_def
  evaluate_vrp_def py_range_def vehicle_route_def py_range3.simps py_index_def py_setitem_def
  vehicle_distance_def py_sum_def norm_diff_def np_std_def np_mean_def setValues_def getValues_def
  FitnessMin_weights_def hof_update_def stats_compile_def np_min_def np_max_def np_mean_all_def
  count_invalid_def ea_generation_def toolbox_select_def random_choice_def max_by_fitness_def
  varAnd_def toolbox_mutate_def mutShuffleIndexes_def randint_def fitness_gt_def fitness_le_def
  init_solver_def random_seed_def random_random_tape randbelow_tape upt_conv_Cons Let_def
  solve_statistics_def initRepeat_numeral selRandom_numeral selTournament_numeral

lemma valid_indices_permutation:
  "is_permutation (length (locations s)) ind \<Longrightarrow> valid_indices s ind"
  using perm_set[of "length (locations s)" ind] by (auto simp: valid_indices_def list_all_iff)

lemma evaluate_vrp_permutation:
  assumes "is_permutation (length (locations s)) ind"
  shows "\<exists>t b. evaluate_vrp s ind = Inr (t, b)"
  using evaluate_loop_valid[OF valid_indices_permutation[OF assms]]
  by (simp add: evaluate_vrp_def)

lemma emap_total:
  "(\<And>x. x \<in> set xs \<Longrightarrow> \<exists>y. f x = Inr y) \<Longrightarrow> \<exists>ys. emap f xs = Inr ys"
proof (induction xs)
  case Nil
  then show ?case by simp
next
  case (Cons x xs)
  then obtain y ys where "f x = Inr y" "emap f xs = Inr ys" by (metis list.set_intros)
  then show ?case by simp
qed

lemma evaluate_invalid_fresh:
  assumes "list_all (\<lambda>ind. permutation_genes (length (locations s)) ind \<and> wvalues ind = []) pop"
  shows "\<exists>ev. evaluate_invalid s pop = Inr ev \<and> length ev = length pop
           \<and> list_all (\<lambda>ind. length (wvalues ind) = 2) ev"
proof -
  have "\<exists>y. (if fitness_valid x then Inr x else evaluate_individual s x) = Inr y" if "x \<in> set pop" for x
  proof -
    from that assms have "is_permutation (length (locations s)) (genes x)" "wvalues x = []"
      by (auto simp: list_all_iff permutation_genes_def)
    then show ?thesis
      using evaluate_vrp_permutation[of s "genes x"]
      by (auto simp: fitness_valid_def evaluate_individual_def)
  qed
  then have "\<exists>ev. emap (\<lambda>x. if fitness_valid x then Inr x else evaluate_individual s x) pop = Inr ev"
    by (rule emap_total)
  then obtain ev where ev: "evaluate_invalid s pop = Inr ev"
    by (auto simp: evaluate_invalid_def)
  have "list_all2 (\<lambda>x y. (if fitness_valid x then Inr x else evaluate_individual s x) = Inr y) pop ev"
    using emap_list_all2 ev unfolding evaluate_invalid_def by fast
  then have "list_all (\<lambda>ind. length (wvalues ind) = 2) ev"
  proof (rule list_all2_transfer[OF _ assms])
    fix x y
    assume "permutation_genes (length (locations s)) x \<and> wvalues x = []"
      and "(if fitness_valid x then Inr x else evaluate_individual s x) = Inr y"
    then show "length (wvalues y) = 2"
      by (cases "evaluate_vrp s (genes x)")
        (auto simp: fitness_valid_def evaluate_individual_def setValues_def FitnessMin_weights_def)
  qed
  then show ?thesis using ev emap_length[of _ pop ev] by (auto simp: evaluate_invalid_def)
qed

lemma stats_compile_total:
  assumes "pop \<noteq> []" "list_all (\<lambda>ind. length (wvalues ind) = 2) pop"
  shows "\<exists>r. stats_compile pop = Inr r"
proof -
  from assms obtain x xs where "pop = x # xs" "length (wvalues x) = 2" by (cases pop) auto
  then have "concat (map (\<lambda>ind. getValues (wvalues ind)) pop) \<noteq> []"
    by (auto simp: getValues_def FitnessMin_weights_def)
  then show ?thesis
    by (auto simp: stats_compile_def np_min_def np_max_def Let_def split: option.splits)
qed

lemma hof_update_nonempty: "pop \<noteq> [] \<Longrightarrow> \<exists>h. hof_update pop None = Some h"
proof -
  have "\<exists>h. hof_update_loop p rest (Some x) = Some h" for p rest x
    by (induction rest arbitrary: x) auto
  then show "pop \<noteq> [] \<Longrightarrow> \<exists>h. hof_update pop None = Some h"
    by (cases pop) (auto simp: hof_update_def)
qed

lemma solve_without_generations:
  assumes "ngen cfg \<le> 0" "1 \<le> pop_size cfg" "num_locations s = length (locations s)"
  shows "\<exists>r s' g'. solve mt s g cfg = Inr (r, s', g')"
proof -
  let ?s = "s\<lparr>select_tournsize := tournsize cfg\<rparr>"
  obtain pop g1 where pop: "toolbox_population ?s (pop_size cfg) (random_seed mt (seed cfg)) = (pop, g1)"
    by (cases "toolbox_population ?s (pop_size cfg) (random_seed mt (seed cfg))")
  from toolbox_population_fresh[OF pop] assms(2,3)
  have fresh: "list_all (\<lambda>ind. permutation_genes (length (locations ?s)) ind \<and> wvalues ind = []) pop"
    and len: "pop \<noteq> []" by auto
  from evaluate_invalid_fresh[OF fresh] obtain ev where ev: "evaluate_invalid ?s pop = Inr ev"
    "length ev = length pop" "list_all (\<lambda>ind. length (wvalues ind) = 2) ev" by blast
  then have ne: "ev \<noteq> []" using len by auto
  from stats_compile_total[OF ne ev(3)] obtain av mn mx where st: "stats_compile ev = Inr (av, mn, mx)"
    by (metis prod_cases3)
  from hof_update_nonempty[OF ne] obtain h where h: "hof_update ev None = Some h" by blast
  have "nat (ngen cfg + 1) \<le> Suc 0" using assms(1) by simp
  then show ?thesis
    using pop ev(1) st h by (simp add: solve_def eaSimple_def ea_record_def Let_def)
qed

lemma solve_ngen_nonpositive:
  "ngen cfg \<le> 0 \<Longrightarrow> solve mt s g cfg = solve mt s g (cfg\<lparr>ngen := 0\<rparr>)"
proof -
  assume "ngen cfg \<le> 0"
  then have "nat (ngen cfg + 1) \<le> Suc 0" by simp
  then show ?thesis by (simp add: solve_def eaSimple_def Let_def)
qed

lemma solve_empty_population:
  assumes "pop_size cfg \<le> 0"
  shows "solve mt s g cfg = Inl ValueError"
  using assms
  by (simp add: solve_def toolbox_population_def eaSimple_def ea_record_def evaluate_invalid_def
      stats_compile_def np_min_def Let_def)

lemma solve_independent_of_prior_state:
  assumes "locations s1 = locations s2" "depot s1 = depot s2" "num_vehicles s1 = num_vehicles s2"
    "num_locations s1 = num_locations s2" "mt1 (seed cfg) = mt2 (seed cfg)"
  shows "solve mt1 s1 g1 cfg = solve mt2 s2 g2 cfg"
proof -
  have "s1\<lparr>select_tournsize := tournsize cfg\<rparr> = s2\<lparr>select_tournsize := tournsize cfg\<rparr>"
    using assms(1-4) by (cases s1, cases s2) simp
  then show ?thesis using assms(5) by (simp add: solve_def random_seed_def)
qed

lemma solve_result_state:
  "solve mt s g cfg = Inr (r, s', g') \<Longrightarrow> s' = s\<lparr>select_tournsize := tournsize cfg\<rparr>"
  by (auto simp: solve_def Let_def split: prod.splits sum.splits option.splits
      elim!: ebind.elims)

section \<open>The hall of fame along the generational loop\<close>

lemma hof_bestD:
  assumes "hof_best s st"
  obtains h where "ea_hof st = Some h" "scored s h" "scored_state s st"
    "\<And>x. x \<in> set (ea_population st) \<Longrightarrow> scored s x \<and> fitness_le (wvalues x) (wvalues h)"
  using assms
  by (cases "ea_hof st") (auto simp: hof_best_def scored_state_def list_all_iff)

lemma ea_record_hof_best:
  assumes nv: "1 \<le> num_vehicles s"
    and pre: "list_all (\<lambda>x. wvalues x = [] \<or> scored s x) cands"
    and hof: "case ea_hof st of None \<Rightarrow> True | Some h \<Rightarrow> scored s h"
    and run: "ea_record s k cands st g = Inr st'"
  shows "hof_best s st'
     \<and> (\<forall>h h'. ea_hof st = Some h \<and> ea_hof st' = Some h'
            \<longrightarrow> fitness_le (wvalues h) (wvalues h'))"
  using ea_record_scored[OF nv pre hof run]
  by (auto simp: hof_best_def list_all_iff)

lemma ea_generation_hof_best:
  assumes nv: "1 \<le> num_vehicles s" and inv: "scored_state s st"
    and run: "ea_generation s cp mp k st = Inr st'"
  shows "hof_best s st'
     \<and> (\<forall>h h'. ea_hof st = Some h \<and> ea_hof st' = Some h'
            \<longrightarrow> fitness_le (wvalues h) (wvalues h'))"
  using ea_generation_scored[OF nv inv run]
  by (auto simp: hof_best_def list_all_iff)

lemma ea_loop_hof_best:
  assumes nv: "1 \<le> num_vehicles s"
  shows "hof_best s st \<Longrightarrow> ea_loop s cp mp gens st = Inr st'
     \<Longrightarrow> hof_best s st'
       \<and> (\<exists>h h'. ea_hof st = Some h \<and> ea_hof st' = Some h'
             \<and> fitness_le (wvalues h) (wvalues h'))"
proof (induction gens arbitrary: st)
  case Nil
  then show ?case by (auto elim!: hof_bestD simp: scored_le_refl)
next
  case (Cons k rest)
  from Cons.prems(2) obtain st1 where st1: "ea_generation s cp mp (int k) st = Inr st1"
    by (cases "ea_generation s cp mp (int k) st") auto
  with Cons.prems(2) have rest: "ea_loop s cp mp rest st1 = Inr st'" by simp
  from Cons.prems(1) obtain h where h: "ea_hof st = Some h" "scored s h" "scored_state s st"
    by (rule hof_bestD)
  from ea_generation_hof_best[OF nv h(3) st1]
  have b1: "hof_best s st1" and m1: "\<And>h1. ea_hof st1 = Some h1 \<Longrightarrow> fitness_le (wvalues h) (wvalues h1)"
    using h(1) by auto
  from Cons.IH[OF b1 rest] obtain h1 h'
    where b': "hof_best s st'" and h1: "ea_hof st1 = Some h1" and h': "ea_hof st' = Some h'"
      and le: "fitness_le (wvalues h1) (wvalues h')" by blast
  have s1: "scored s h1" using b1 h1 by (auto elim!: hof_bestD)
  have s': "scored s h'" using b' h' by (auto elim!: hof_bestD)
  have "fitness_le (wvalues h) (wvalues h')"
    by (rule scored_le_trans[OF h(2) s1 s' m1[OF h1] le])
  then show ?case using b' h(1) h' by blast
qed

lemma ea_loop_append:
  "ea_loop s cp mp (xs @ ys) st = ebind (ea_loop s cp mp xs st) (ea_loop s cp mp ys)"
proof (induction xs arbitrary: st)
  case Nil
  then show ?case by simp
next
  case (Cons k xs)
  then show ?case by (cases "ea_generation s cp mp (int k) st") simp_all
qed

lemma eaSimple_prefix:
  assumes "0 \<le> k" "k \<le> ng"
  shows "eaSimple s pop cp mp ng hof g
     = ebind (eaSimple s pop cp mp k hof g) (ea_loop s cp mp [nat (k + 1)..<nat (ng + 1)])"
proof -
  have "[1..<nat (ng + 1)] = [1..<nat (k + 1)] @ [nat (k + 1)..<nat (ng + 1)]"
    using assms upt_add_eq_append[of 1 "nat (k + 1)" "nat (ng + 1) - nat (k + 1)"]
    by (simp add: nat_le_eq_zle)
  then show ?thesis
    unfolding eaSimple_def
    by (cases "ea_record s 0 pop
          \<lparr>ea_population = pop, ea_hof = hof, ea_logbook = [], ea_rng = g\<rparr> g")
      (simp_all add: ea_loop_append)
qed

lemma eaSimple_hof_best:
  assumes nv: "1 \<le> num_vehicles s" and fresh: "list_all (\<lambda>x. wvalues x = []) pop"
    and run: "eaSimple s pop cp mp ng None g = Inr st"
  shows "hof_best s st"
proof -
  let ?st0 = "\<lparr>ea_population = pop, ea_hof = None, ea_logbook = [], ea_rng = g\<rparr>"
  from run obtain st1 where st1: "ea_record s 0 pop ?st0 g = Inr st1"
    by (cases "ea_record s 0 pop ?st0 g") (auto simp: eaSimple_def)
  with run have lp: "ea_loop s cp mp [1..<nat (ng + 1)] st1 = Inr st"
    by (simp add: eaSimple_def)
  have pre: "list_all (\<lambda>x. wvalues x = [] \<or> scored s x) pop"
    using fresh by (simp add: list_all_iff)
  have "hof_best s st1"
    using ea_record_hof_best[OF nv pre _ st1] by simp
  from ea_loop_hof_best[OF nv this lp] show ?thesis by simp
qed

lemma eaSimple_best_so_far:
  assumes nv: "1 \<le> num_vehicles s" and fresh: "list_all (\<lambda>x. wvalues x = []) pop"
    and run: "eaSimple s pop cp mp ng None g = Inr st" and k: "0 \<le> k" "k \<le> ng"
  shows "\<exists>stk h hk. eaSimple s pop cp mp k None g = Inr stk
           \<and> hof_best s stk \<and> hof_best s st
           \<and> ea_hof st = Some h \<and> ea_hof stk = Some hk
           \<and> fitness_le (wvalues hk) (wvalues h)"
proof -
  from run eaSimple_prefix[OF k, of s pop cp mp None g]
  obtain stk where stk: "eaSimple s pop cp mp k None g = Inr stk"
    and lp: "ea_loop s cp mp [nat (k + 1)..<nat (ng + 1)] stk = Inr st"
    by (cases "eaSimple s pop cp mp k None g") auto
  have bk: "hof_best s stk" by (rule eaSimple_hof_best[OF nv fresh stk])
  from ea_loop_hof_best[OF nv bk lp] obtain hk h
    where "hof_best s st" "ea_hof stk = Some hk" "ea_hof st = Some h"
      "fitness_le (wvalues hk) (wvalues h)" by blast
  with stk bk show ?thesis by blast
qed

lemma hof_best_lex:
  assumes b: "hof_best s st" and h: "ea_hof st = Some h"
    and s': "scored s h'" and le: "fitness_le (wvalues h) (wvalues h')"
  shows "\<exists>v v'. fitness_pair h = Some v \<and> fitness_pair h' = Some v' \<and> lex_le v' v
           \<and> (\<forall>x \<in> set (ea_population st). \<exists>w. fitness_pair x = Some w \<and> lex_le v' w)"
proof -
  from b h have sh: "scored s h"
    and pop: "\<And>x. x \<in> set (ea_population st) \<Longrightarrow> scored s x \<and> fitness_le (wvalues x) (wvalues h)"
    by (auto elim!: hof_bestD)
  from scored_le_lex[OF sh s' le] obtain v v'
    where v: "fitness_pair h = Some v" "fitness_pair h' = Some v'" "lex_le v' v" by blast
  have "\<exists>w. fitness_pair x = Some w \<and> lex_le v' w" if "x \<in> set (ea_population st)" for x
  proof -
    from pop[OF that] have sx: "scored s x" and "fitness_le (wvalues x) (wvalues h)" by simp_all
    then have "fitness_le (wvalues x) (wvalues h')"
      using scored_le_trans[OF sx sh s' _ le] by simp
    from scored_le_lex[OF sx s' this] v(2) show ?thesis by auto
  qed
  with v show ?thesis by blast
qed

lemma solve_eaSimple:
  assumes "solve mt s g cfg = Inr (r, s', g')"
  obtains pop g1 st where
    "toolbox_population (s\<lparr>select_tournsize := tournsize cfg\<rparr>) (pop_size cfg)
       (random_seed mt (seed cfg)) = (pop, g1)"
    "eaSimple (s\<lparr>select_tournsize := tournsize cfg\<rparr>) pop (cxpb cfg) (mutpb cfg) (ngen cfg) None g1
       = Inr st"
    "ea_hof st = Some (best_individual r)" "population r = ea_population st"
    "hall_of_fame r = Some (best_individual r)"
proof -
  let ?s = "s\<lparr>select_tournsize := tournsize cfg\<rparr>"
  obtain pop g1 where pop: "toolbox_population ?s (pop_size cfg) (random_seed mt (seed cfg)) = (pop, g1)"
    by (cases "toolbox_population ?s (pop_size cfg) (random_seed mt (seed cfg))")
  with assms obtain st where st: "eaSimple ?s pop (cxpb cfg) (mutpb cfg) (ngen cfg) None g1 = Inr st"
    by (cases "eaSimple ?s pop (cxpb cfg) (mutpb cfg) (ngen cfg) None g1") (auto simp: solve_def Let_def)
  with assms pop have "ea_hof st = Some (best_individual r)" "population r = ea_population st"
      "hall_of_fame r = Some (best_individual r)"
    by (auto simp: solve_def Let_def split: option.splits)
  with pop st show ?thesis by (rule that)
qed

lemma solve_best_so_far:
  assumes nv: "1 \<le> num_vehicles s" and run: "solve mt s g cfg = Inr (r, s', g')"
    and k: "0 \<le> k" "k \<le> ngen cfg"
  shows "\<exists>rk sk gk v vk. solve mt s g (cfg\<lparr>ngen := k\<rparr>) = Inr (rk, sk, gk)
           \<and> fitness_pair (best_individual r) = Some v
           \<and> fitness_pair (best_individual rk) = Some vk \<and> lex_le v vk
           \<and> (\<forall>x \<in> set (population rk). \<exists>w. fitness_pair x = Some w \<and> lex_le v w)"
proof -
  let ?s = "s\<lparr>select_tournsize := tournsize cfg\<rparr>"
  from run obtain pop g1 st where
    pop: "toolbox_population ?s (pop_size cfg) (random_seed mt (seed cfg)) = (pop, g1)"
    and st: "eaSimple ?s pop (cxpb cfg) (mutpb cfg) (ngen cfg) None g1 = Inr st"
    and h: "ea_hof st = Some (best_individual r)"
    by (rule solve_eaSimple)
  have nv': "1 \<le> num_vehicles ?s" using nv by simp
  have fresh: "list_all (\<lambda>x. wvalues x = []) pop"
    using toolbox_population_fresh[OF pop] by (simp add: list_all_iff)
  from eaSimple_best_so_far[OF nv' fresh st k] h obtain stk hk
    where stk: "eaSimple ?s pop (cxpb cfg) (mutpb cfg) k None g1 = Inr stk"
      and bk: "hof_best ?s stk" and b: "hof_best ?s st" and hk: "ea_hof stk = Some hk"
      and le: "fitness_le (wvalues hk) (wvalues (best_individual r))"
    by auto
  have sb: "scored ?s (best_individual r)" using b h by (auto elim!: hof_bestD)
  let ?rk = "\<lparr>best_individual = hk, population = ea_population stk, stats = solve_statistics,
              hall_of_fame = Some hk\<rparr>"
  have "solve mt s g (cfg\<lparr>ngen := k\<rparr>) = Inr (?rk, ?s, ea_rng stk)"
    using pop stk hk by (simp add: solve_def Let_def)
  moreover from hof_best_lex[OF bk hk sb le]
  have "\<exists>v vk. fitness_pair (best_individual r) = Some v
           \<and> fitness_pair (best_individual ?rk) = Some vk \<and> lex_le v vk
           \<and> (\<forall>x \<in> set (population ?rk). \<exists>w. fitness_pair x = Some w \<and> lex_le v w)"
    by auto
  ultimately show ?thesis by blast
qed

lemma solve_best_of_population:
  assumes nv: "1 \<le> num_vehicles s" and run: "solve mt s g cfg = Inr (r, s', g')"
  shows "\<exists>v. fitness_pair (best_individual r) = Some v
           \<and> (\<forall>x \<in> set (population r). \<exists>w. fitness_pair x = Some w \<and> lex_le v w)"
proof -
  let ?s = "s\<lparr>select_tournsize := tournsize cfg\<rparr>"
  from run obtain pop g1 st where
    pop: "toolbox_population ?s (pop_size cfg) (random_seed mt (seed cfg)) = (pop, g1)"
    and st: "eaSimple ?s pop (cxpb cfg) (mutpb cfg) (ngen cfg) None g1 = Inr st"
    and h: "ea_hof st = Some (best_individual r)" and p: "population r = ea_population st"
    by (rule solve_eaSimple)
  have nv': "1 \<le> num_vehicles ?s" using nv by simp
  have fresh: "list_all (\<lambda>x. wvalues x = []) pop"
    using toolbox_population_fresh[OF pop] by (simp add: list_all_iff)
  have b: "hof_best ?s st" by (rule eaSimple_hof_best[OF nv' fresh st])
  then have sb: "scored ?s (best_individual r)" using h by (auto elim!: hof_bestD)
  from hof_best_lex[OF b h sb scored_le_refl[OF sb]] p show ?thesis by auto
qed

section \<open>Runs that return, and runs that raise\<close>

lemma random_random_range: "random_random g = (r, g') \<Longrightarrow> 0 \<le> r \<and> r < 1"
proof -
  assume a: "random_random g = (r, g')"
  obtain x g1 where x: "rng_next g = (x, g1)" by (cases "rng_next g")
  have "x mod 2 ^ 53 < 2 ^ 53" by simp
  then have "real (x mod 2 ^ 53) < 2 ^ 53"
    by (metis of_nat_less_iff of_nat_numeral of_nat_power)
  then show ?thesis using a x by (auto simp: random_random_def)
qed

lemma random_choice_total: "seq \<noteq> [] \<Longrightarrow> \<exists>x g'. random_choice seq g = Inr (x, g')"
  by (simp add: random_choice_def split: prod.splits)

lemma selRandom_total:
  "seq \<noteq> [] \<Longrightarrow> \<exists>xs g'. selRandom seq k g = Inr (xs, g') \<and> length xs = k"
proof (induction k arbitrary: g)
  case 0
  then show ?case by simp
next
  case (Suc k)
  from random_choice_total[OF Suc.prems, of g] obtain x g1
    where x: "random_choice seq g = Inr (x, g1)" by blast
  from Suc.IH[OF Suc.prems, of g1] obtain xs g2
    where xs: "selRandom seq k g1 = Inr (xs, g2)" "length xs = k" by blast
  show ?case using x xs by simp
qed

lemma selTournament_total:
  assumes "individuals \<noteq> []" "1 \<le> ts"
  shows "\<exists>chosen g'. selTournament individuals k ts g = Inr (chosen, g')"
proof (induction k arbitrary: g)
  case 0
  then show ?case by simp
next
  case (Suc k)
  from selRandom_total[OF assms(1), of "nat ts" g] obtain asp g1
    where a: "selRandom individuals (nat ts) g = Inr (asp, g1)" "length asp = nat ts" by blast
  then have "asp \<noteq> []" using assms(2) by auto
  then obtain w where w: "max_by_fitness asp = Inr w"
    by (cases asp) (auto simp: max_by_fitness_def)
  from Suc.IH[of g1] obtain ys g2 where "selTournament individuals k ts g1 = Inr (ys, g2)" by blast
  then show ?case using a(1) w by simp
qed

lemma mut_loop_total:
  assumes "set is \<subseteq> {0..<length ind}" "sz = length ind" "sz \<noteq> 1"
  shows "\<exists>m g'. mut_loop is sz indpb ind g = Inr (m, g')"
  using assms
proof (induction "is" arbitrary: ind g)
  case Nil
  then show ?case by simp
next
  case (Cons i rest)
  obtain r g1 where r: "random_random g = (r, g1)" by (cases "random_random g")
  have i: "i < length ind" using Cons.prems(1) by simp
  show ?case
  proof (cases "r < indpb")
    case False
    then show ?thesis using Cons r by simp
  next
    case True
    have "2 \<le> sz" using i Cons.prems(2,3) by simp
    then obtain r2 g2 where r2: "randint 0 (int sz - 2) g1 = Inr (r2, g2)"
      using randint_total[of 0 "int sz - 2" g1] by auto
    define sw where "sw = (if r2 \<ge> int i then r2 + 1 else r2)"
    have sw: "0 \<le> sw" "sw < int (length ind)"
      using randint_range[OF r2] Cons.prems(2) i by (auto simp: sw_def)
    let ?ind = "ind[i := ind ! nat sw, nat sw := ind ! i]"
    have step: "mut_loop (i # rest) sz indpb ind g = mut_loop rest sz indpb ?ind g2"
      using r True r2 sw i
      by (simp add: sw_def[symmetric] py_index_valid py_setitem_valid Let_def)
    have "\<exists>m g'. mut_loop rest sz indpb ?ind g2 = Inr (m, g')"
      using Cons.prems by (intro Cons.IH) auto
    then show ?thesis using step by simp
  qed
qed

lemma toolbox_mutate_total:
  "length ind \<noteq> 1 \<Longrightarrow> \<exists>m g'. toolbox_mutate ind g = Inr (m, g')"
  using mut_loop_total[of "[0..<length ind]" ind "length ind"]
  by (simp add: toolbox_mutate_def mutShuffleIndexes_def)

lemma varAnd_mate_total:
  assumes "list_all (permutation_genes n) offspring" "set is \<subseteq> {1..<length offspring}"
    and "0 < n \<or> cp \<le> 0"
  shows "\<exists>res g'. varAnd_mate is cp offspring g = Inr (res, g')"
  using assms(1,2)
proof (induction "is" arbitrary: offspring g)
  case Nil
  then show ?case by simp
next
  case (Cons i rest)
  obtain r g1 where r: "random_random g = (r, g1)" by (cases "random_random g")
  have i: "1 \<le> i" "i < length offspring" using Cons.prems(2) by auto
  show ?case
  proof (cases "r < cp")
    case False
    then show ?thesis using Cons r by simp
  next
    case True
    then have n: "0 < n" using assms(3) random_random_range[OF r] by auto
    let ?x = "offspring ! (i - 1)" and ?y = "offspring ! i"
    have p: "permutation_genes n ?x" "permutation_genes n ?y"
      using Cons.prems(1) i by (auto simp: list_all_length)
    then obtain c1 c2 g2
      where c: "cxPartialyMatched (genes ?x) (genes ?y) g1 = Inr ((c1, c2), g2)"
      using cxPartialyMatched_total[of n "genes ?x" "genes ?y" g1] n
      by (auto simp: permutation_genes_def)
    let ?off = "offspring[i - 1 := \<lparr>genes = c1, wvalues = []\<rparr>, i := \<lparr>genes = c2, wvalues = []\<rparr>]"
    from permutation_genes_mate[OF p c] have "list_all (permutation_genes n) ?off"
      using Cons.prems(1) by (auto simp: list_all_iff dest!: set_update_subset_insert[THEN subsetD])
    moreover have "set rest \<subseteq> {1..<length ?off}" using Cons.prems(2) by simp
    ultimately have "\<exists>res g'. varAnd_mate rest cp ?off g2 = Inr (res, g')"
      by (rule Cons.IH)
    then show ?thesis using r True c by simp
  qed
qed

lemma varAnd_mutate_total:
  assumes "list_all (permutation_genes n) offspring" "set is \<subseteq> {0..<length offspring}"
    and "n \<noteq> 1 \<or> mp \<le> 0"
  shows "\<exists>res g'. varAnd_mutate is mp offspring g = Inr (res, g')"
  using assms(1,2)
proof (induction "is" arbitrary: offspring g)
  case Nil
  then show ?case by simp
next
  case (Cons i rest)
  obtain r g1 where r: "random_random g = (r, g1)" by (cases "random_random g")
  have i: "i < length offspring" using Cons.prems(2) by auto
  show ?case
  proof (cases "r < mp")
    case False
    then show ?thesis using Cons r by simp
  next
    case True
    then have n: "n \<noteq> 1" using assms(3) random_random_range[OF r] by auto
    let ?x = "offspring ! i"
    have p: "permutation_genes n ?x"
      using Cons.prems(1) i by (auto simp: list_all_length)
    then have "length (genes ?x) \<noteq> 1"
      using n perm_length[of n "genes ?x"] by (simp add: permutation_genes_def)
    then obtain m g2 where c: "toolbox_mutate (genes ?x) g1 = Inr (m, g2)"
      using toolbox_mutate_total[of "genes ?x" g1] by blast
    let ?off = "offspring[i := \<lparr>genes = m, wvalues = []\<rparr>]"
    from permutation_genes_mutate[OF p c] have "list_all (permutation_genes n) ?off"
      using Cons.prems(1) by (auto simp: list_all_iff dest!: set_update_subset_insert[THEN subsetD])
    moreover have "set rest \<subseteq> {0..<length ?off}" using Cons.prems(2) by simp
    ultimately have "\<exists>res g'. varAnd_mutate rest mp ?off g2 = Inr (res, g')"
      by (rule Cons.IH)
    then show ?thesis using r True c by simp
  qed
qed

lemma varAnd_total:
  assumes "list_all (permutation_genes n) pop"
    and "length pop \<le> 1 \<or> 0 < n \<or> cp \<le> 0" and "n \<noteq> 1 \<or> mp \<le> 0"
  shows "\<exists>res g'. varAnd pop cp mp g = Inr (res, g')"
proof -
  have "\<exists>off g1. varAnd_mate (py_range3 1 (length pop) 2) cp pop g = Inr (off, g1)"
  proof (cases "length pop \<le> 1")
    case True
    then have "py_range3 1 (length pop) 2 = []" by (simp add: py_range3.simps)
    then show ?thesis by simp
  next
    case False
    then have "0 < n \<or> cp \<le> 0" using assms(2) by simp
    then show ?thesis by (rule varAnd_mate_total[OF assms(1) py_range3_pairs])
  qed
  then obtain off g1
    where m: "varAnd_mate (py_range3 1 (length pop) 2) cp pop g = Inr (off, g1)" by blast
  have "list_all (permutation_genes n) off \<and> length off = length pop"
  proof (rule varAnd_mate_all[OF assms(1) py_range3_pairs _ m])
    fix x y g c1 c2 g'
    assume "permutation_genes n x" "permutation_genes n y"
      "cxPartialyMatched (genes x) (genes y) g = Inr ((c1, c2), g')"
    then show "permutation_genes n \<lparr>genes = c1, wvalues = []\<rparr>
       \<and> permutation_genes n \<lparr>genes = c2, wvalues = []\<rparr>"
      by (rule permutation_genes_mate)
  qed
  then have "\<exists>res g'. varAnd_mutate [0..<length off] mp off g1 = Inr (res, g')"
    using assms(3) by (intro varAnd_mutate_total[of n]) auto
  then show ?thesis using m by (simp add: varAnd_def)
qed

lemma valid_indices_permutation_le:
  "is_permutation n ind \<Longrightarrow> n \<le> length (locations s) \<Longrightarrow> valid_indices s ind"
  using perm_set[of n ind] by (auto simp: valid_indices_def list_all_iff)

lemma evaluate_invalid_total:
  assumes "list_all (\<lambda>ind. permutation_genes n ind
              \<and> (wvalues ind = [] \<or> length (wvalues ind) = 2)) pop"
    and "n \<le> length (locations s)"
  shows "\<exists>ev. evaluate_invalid s pop = Inr ev \<and> length ev = length pop
           \<and> list_all (\<lambda>ind. permutation_genes n ind \<and> length (wvalues ind) = 2) ev"
proof -
  let ?f = "\<lambda>x. if fitness_valid x then Inr x else evaluate_individual s x"
  have ex: "\<exists>t b. evaluate_vrp s (genes x) = Inr (t, b)" if "x \<in> set pop" for x
  proof -
    from that assms(1) have "is_permutation n (genes x)"
      by (auto simp: list_all_iff permutation_genes_def)
    from evaluate_loop_valid[OF valid_indices_permutation_le[OF this assms(2)]]
    show ?thesis by (simp add: evaluate_vrp_def)
  qed
  have "\<exists>y. ?f x = Inr y" if "x \<in> set pop" for x
    using ex[OF that] by (auto simp: evaluate_individual_def)
  then have "\<exists>ev. emap ?f pop = Inr ev" by (rule emap_total)
  then obtain ev where ev: "evaluate_invalid s pop = Inr ev"
    by (auto simp: evaluate_invalid_def)
  have "list_all2 (\<lambda>x y. ?f x = Inr y) pop ev"
    using emap_list_all2 ev unfolding evaluate_invalid_def by fast
  then have "list_all (\<lambda>ind. permutation_genes n ind \<and> length (wvalues ind) = 2) ev"
  proof (rule list_all2_transfer[OF _ assms(1)])
    fix x y
    assume a: "permutation_genes n x \<and> (wvalues x = [] \<or> length (wvalues x) = 2)"
      and b: "?f x = Inr y"
    show "permutation_genes n y \<and> length (wvalues y) = 2"
    proof (cases "fitness_valid x")
      case True
      then show ?thesis using a b by (auto simp: fitness_valid_def)
    next
      case False
      then have e: "evaluate_individual s x = Inr y" using b by simp
      then have "genes y = genes x" by (rule evaluate_individual_genes)
      moreover have "length (wvalues y) = 2"
        using e by (cases "evaluate_vrp s (genes x)")
          (auto simp: evaluate_individual_def setValues_def FitnessMin_weights_def)
      ultimately show ?thesis using a by (simp add: permutation_genes_def)
    qed
  qed
  then show ?thesis using ev emap_length[of _ pop ev] by (auto simp: evaluate_invalid_def)
qed

lemma hof_update_some:
  assumes "pop \<noteq> []"
  shows "\<exists>h. hof_update pop hof = Some h"
proof -
  have "\<exists>h. hof_update_loop p rest (Some x) = Some h" for p rest x
    by (induction rest arbitrary: x) auto
  then show ?thesis using assms
    by (cases pop; cases hof) (auto simp: hof_update_def)
qed

lemma ea_record_total:
  assumes "cands \<noteq> []"
    and "list_all (\<lambda>ind. permutation_genes n ind
              \<and> (wvalues ind = [] \<or> length (wvalues ind) = 2)) cands"
    and "n \<le> length (locations s)"
  shows "\<exists>st'. ea_record s k cands st g = Inr st' \<and> ea_population st' \<noteq> []
           \<and> list_all (\<lambda>ind. permutation_genes n ind \<and> length (wvalues ind) = 2)
                (ea_population st')
           \<and> ea_hof st' \<noteq> None"
proof -
  from evaluate_invalid_total[OF assms(2,3)] obtain ev
    where ev: "evaluate_invalid s cands = Inr ev" "length ev = length cands"
      "list_all (\<lambda>ind. permutation_genes n ind \<and> length (wvalues ind) = 2) ev" by blast
  then have ne: "ev \<noteq> []" using assms(1) by auto
  have "list_all (\<lambda>ind. length (wvalues ind) = 2) ev" using ev(3) by (simp add: list_all_iff)
  from stats_compile_total[OF ne this] obtain av mn mx
    where st: "stats_compile ev = Inr (av, mn, mx)" by (metis prod_cases3)
  from hof_update_some[OF ne] obtain h where h: "hof_update ev (ea_hof st) = Some h" by blast
  show ?thesis using ev(1,3) ne st h by (simp add: ea_record_def)
qed

lemma ea_generation_total:
  assumes pop: "ea_population st \<noteq> []"
    "list_all (\<lambda>ind. permutation_genes n ind \<and> length (wvalues ind) = 2) (ea_population st)"
    and n: "n \<le> length (locations s)" and ts: "1 \<le> select_tournsize s"
    and cx: "length (ea_population st) \<le> 1 \<or> 0 < n \<or> cp \<le> 0" and mu: "n \<noteq> 1 \<or> mp \<le> 0"
  shows "\<exists>st'. ea_generation s cp mp k st = Inr st' \<and> ea_population st' \<noteq> []
           \<and> length (ea_population st') = length (ea_population st)
           \<and> list_all (\<lambda>ind. permutation_genes n ind \<and> length (wvalues ind) = 2)
                (ea_population st')
           \<and> ea_hof st' \<noteq> None"
proof -
  let ?pop = "ea_population st"
  let ?ready = "\<lambda>ind. permutation_genes n ind \<and> (wvalues ind = [] \<or> length (wvalues ind) = 2)"
  from selTournament_total[OF pop(1) ts, of "length ?pop" "ea_rng st"] obtain sel g1
    where sel: "toolbox_select s ?pop (length ?pop) (ea_rng st) = Inr (sel, g1)"
    by (auto simp: toolbox_select_def)
  then have sub: "set sel \<subseteq> set ?pop" and len: "length sel = length ?pop"
    using selTournament_subset[of ?pop "length ?pop" "select_tournsize s" "ea_rng st" sel g1]
    by (simp_all add: toolbox_select_def)
  have rs: "list_all ?ready sel" using sub pop(2) by (auto simp: list_all_iff)
  then have ps: "list_all (permutation_genes n) sel" by (simp add: list_all_iff)
  from varAnd_total[OF ps _ mu, of cp g1] cx len obtain off g2
    where off: "varAnd sel cp mp g1 = Inr (off, g2)" by auto
  have ro: "list_all ?ready off \<and> length off = length sel"
  proof (rule varAnd_all[OF rs _ _ off])
    fix x y g c1 c2 g'
    assume "?ready x" "?ready y" "cxPartialyMatched (genes x) (genes y) g = Inr ((c1, c2), g')"
    then show "?ready \<lparr>genes = c1, wvalues = []\<rparr> \<and> ?ready \<lparr>genes = c2, wvalues = []\<rparr>"
      using permutation_genes_mate[of n x y g c1 c2 g'] by simp
  next
    fix x g m g'
    assume "?ready x" "toolbox_mutate (genes x) g = Inr (m, g')"
    then show "?ready \<lparr>genes = m, wvalues = []\<rparr>"
      using permutation_genes_mutate[of n x g m g'] by simp
  qed
  then have "off \<noteq> []" using len pop(1) by auto
  from ea_record_total[OF this _ n, where k = k and st = st and g = g2] ro obtain st'
    where st': "ea_record s k off st g2 = Inr st'" "ea_population st' \<noteq> []"
      "list_all (\<lambda>ind. permutation_genes n ind \<and> length (wvalues ind) = 2) (ea_population st')"
      "ea_hof st' \<noteq> None" by auto
  have "length (ea_population st') = length off"
  proof -
    from st'(1) obtain ev where ev: "evaluate_invalid s off = Inr ev"
      by (cases "evaluate_invalid s off") (auto simp: ea_record_def)
    with st'(1) have "ea_population st' = ev"
      by (cases "stats_compile ev") (auto simp: ea_record_def)
    then show ?thesis using emap_length[of _ off ev] ev by (simp add: evaluate_invalid_def)
  qed
  then show ?thesis using sel off st' ro len by (simp add: ea_generation_def)
qed

lemma ea_loop_total:
  assumes n: "n \<le> length (locations s)" and ts: "1 \<le> select_tournsize s"
    and mu: "n \<noteq> 1 \<or> mp \<le> 0"
  shows "ea_population st \<noteq> []
    \<Longrightarrow> list_all (\<lambda>ind. permutation_genes n ind \<and> length (wvalues ind) = 2) (ea_population st)
    \<Longrightarrow> ea_hof st \<noteq> None
    \<Longrightarrow> length (ea_population st) \<le> 1 \<or> 0 < n \<or> cp \<le> 0
    \<Longrightarrow> \<exists>st'. ea_loop s cp mp gens st = Inr st' \<and> ea_hof st' \<noteq> None"
proof (induction gens arbitrary: st)
  case Nil
  then show ?case by simp
next
  case (Cons k rest)
  from ea_generation_total[OF Cons.prems(1,2) n ts Cons.prems(4) mu, of "int k"] obtain st1
    where st1: "ea_generation s cp mp (int k) st = Inr st1" "ea_population st1 \<noteq> []"
      "length (ea_population st1) = length (ea_population st)"
      "list_all (\<lambda>ind. permutation_genes n ind \<and> length (wvalues ind) = 2) (ea_population st1)"
      "ea_hof st1 \<noteq> None" by blast
  have "\<exists>st'. ea_loop s cp mp rest st1 = Inr st' \<and> ea_hof st' \<noteq> None"
    using st1 Cons.prems(4) by (intro Cons.IH) auto
  then show ?case using st1(1) by simp
qed

lemma solve_total:
  assumes "num_locations s \<le> length (locations s)" "1 \<le> pop_size cfg" "1 \<le> tournsize cfg"
    and "pop_size cfg \<le> 1 \<or> 0 < num_locations s \<or> cxpb cfg \<le> 0"
    and "num_locations s \<noteq> 1 \<or> mutpb cfg \<le> 0"
  shows "\<exists>r s' g'. solve mt s g cfg = Inr (r, s', g')"
proof -
  let ?s = "s\<lparr>select_tournsize := tournsize cfg\<rparr>"
  let ?n = "num_locations s"
  obtain pop g1 where pop: "toolbox_population ?s (pop_size cfg) (random_seed mt (seed cfg)) = (pop, g1)"
    by (cases "toolbox_population ?s (pop_size cfg) (random_seed mt (seed cfg))")
  from toolbox_population_fresh[OF pop] assms(2)
  have fresh: "list_all (\<lambda>ind. permutation_genes ?n ind \<and> wvalues ind = []) pop"
    and len: "length pop = nat (pop_size cfg)" and ne: "pop \<noteq> []" by auto
  have ready: "list_all (\<lambda>ind. permutation_genes ?n ind
              \<and> (wvalues ind = [] \<or> length (wvalues ind) = 2)) pop"
    using fresh by (simp add: list_all_iff)
  let ?st0 = "\<lparr>ea_population = pop, ea_hof = None, ea_logbook = [], ea_rng = g1\<rparr>"
  from ea_record_total[OF ne ready, of ?s 0 ?st0 g1] assms(1) obtain st1
    where st1: "ea_record ?s 0 pop ?st0 g1 = Inr st1" "ea_population st1 \<noteq> []"
      "list_all (\<lambda>ind. permutation_genes ?n ind \<and> length (wvalues ind) = 2) (ea_population st1)"
      "ea_hof st1 \<noteq> None" by auto
  have l1: "length (ea_population st1) = length pop"
  proof -
    from st1(1) obtain ev where ev: "evaluate_invalid ?s pop = Inr ev"
      by (cases "evaluate_invalid ?s pop") (auto simp: ea_record_def)
    with st1(1) have "ea_population st1 = ev"
      by (cases "stats_compile ev") (auto simp: ea_record_def)
    then show ?thesis using emap_length[of _ pop ev] ev by (simp add: evaluate_invalid_def)
  qed
  have cx: "length (ea_population st1) \<le> 1 \<or> 0 < ?n \<or> cxpb cfg \<le> 0"
    using assms(4) l1 len by auto
  from ea_loop_total[of ?n ?s "mutpb cfg" st1 "cxpb cfg" "[1..<nat (ngen cfg + 1)]"]
    assms(1,3,5) st1 cx
  obtain st where st: "ea_loop ?s (cxpb cfg) (mutpb cfg) [1..<nat (ngen cfg + 1)] st1 = Inr st"
      "ea_hof st \<noteq> None" by auto
  then obtain b where "ea_hof st = Some b" by auto
  then show ?thesis using pop st1(1) st(1) by (simp add: solve_def eaSimple_def Let_def)
qed

lemma ea_generation_tournsize_nonpositive:
  assumes "ea_population st \<noteq> []" "select_tournsize s \<le> 0"
  shows "ea_generation s cp mp k st = Inl ValueError"
proof -
  from assms(1) obtain m where "length (ea_population st) = Suc m"
    by (cases "ea_population st") auto
  then show ?thesis using assms(2)
    by (simp add: ea_generation_def toolbox_select_def max_by_fitness_def)
qed

lemma solve_tournsize_nonpositive:
  assumes "num_locations s \<le> length (locations s)" "1 \<le> pop_size cfg"
    and "tournsize cfg \<le> 0" "1 \<le> ngen cfg"
  shows "solve mt s g cfg = Inl ValueError
       \<and> (\<exists>r s' g'. solve mt s g (cfg\<lparr>ngen := 0\<rparr>) = Inr (r, s', g'))"
proof -
  let ?s = "s\<lparr>select_tournsize := tournsize cfg\<rparr>"
  let ?n = "num_locations s"
  obtain pop g1 where pop: "toolbox_population ?s (pop_size cfg) (random_seed mt (seed cfg)) = (pop, g1)"
    by (cases "toolbox_population ?s (pop_size cfg) (random_seed mt (seed cfg))")
  from toolbox_population_fresh[OF pop] assms(2)
  have fresh: "list_all (\<lambda>ind. permutation_genes ?n ind \<and> wvalues ind = []) pop"
    and ne: "pop \<noteq> []" by auto
  have ready: "list_all (\<lambda>ind. permutation_genes ?n ind
              \<and> (wvalues ind = [] \<or> length (wvalues ind) = 2)) pop"
    using fresh by (simp add: list_all_iff)
  let ?init = "\<lparr>ea_population = pop, ea_hof = None, ea_logbook = [], ea_rng = g1\<rparr>"
  from ea_record_total[OF ne ready, of ?s 0 ?init g1] assms(1) obtain st1
    where st1: "ea_record ?s 0 pop ?init g1 = Inr st1" "ea_population st1 \<noteq> []"
      "ea_hof st1 \<noteq> None" by auto
  from st1(3) obtain b where b: "ea_hof st1 = Some b" by auto
  have "1 < nat (ngen cfg + 1)" using assms(4) by simp
  then obtain rest where gens: "[1..<nat (ngen cfg + 1)] = 1 # rest"
    by (auto simp: upt_conv_Cons)
  have "ea_generation ?s (cxpb cfg) (mutpb cfg) 1 st1 = Inl ValueError"
    using st1(2) assms(3) by (intro ea_generation_tournsize_nonpositive) simp_all
  then have "solve mt s g cfg = Inl ValueError"
    using pop st1(1) gens by (simp add: solve_def eaSimple_def Let_def)
  moreover have "\<exists>r s' g'. solve mt s g (cfg\<lparr>ngen := 0\<rparr>) = Inr (r, s', g')"
    using pop st1(1) b by (simp add: solve_def eaSimple_def Let_def)
  ultimately show ?thesis by simp
qed

section \<open>The route decoder\<close>

text \<open>
  Claim C4. For an individual whose entries index the location list and at least one
  vehicle, \<open>get_vehicle_routes\<close> returns exactly \<open>num_vehicles\<close> routes, and route
  \<open>i\<close> is the depot, then the locations at the permutation positions \<open>j\<close> with
  \<open>j mod num_vehicles = i\<close> in permutation order, then the depot. With two vehicles and
  the individual \<open>[0,1,2,3]\<close>, vehicle 0 gets the locations at positions 0 and 2 and
  vehicle 1 those at positions 1 and 3.
\<close>

theorem get_vehicle_routes_round_robin:
  "(1 \<le> num_vehicles s \<and> valid_indices s individual \<longrightarrow>
      (\<exists>routes. get_vehicle_routes s individual = Inr routes
         \<and> length routes = nat (num_vehicles s)
         \<and> (\<forall>i < nat (num_vehicles s). routes ! i = spec_route s individual i)))
   \<and> get_vehicle_routes (init_solver [l0, l1, l2, l3] d 2) [0, 1, 2, 3]
       = Inr [[d, l0, l2, d], [d, l1, l3, d]]"
proof
  show "1 \<le> num_vehicles s \<and> valid_indices s individual \<longrightarrow>
      (\<exists>routes. get_vehicle_routes s individual = Inr routes
         \<and> length routes = nat (num_vehicles s)
         \<and> (\<forall>i < nat (num_vehicles s). routes ! i = spec_route s individual i))"
    by (simp add: get_vehicle_routes_valid)
  show "get_vehicle_routes (init_solver [l0, l1, l2, l3] d 2) [0, 1, 2, 3]
       = Inr [[d, l0, l2, d], [d, l1, l3, d]]"
    by (simp add: get_vehicle_routes_def py_range_def init_solver_def vehicle_route_def
          py_range3.simps py_index_def upt_conv_Cons)
qed

theorem get_vehicle_routes_round_robin_witness:
  "1 \<le> num_vehicles (init_solver [(1, 2), (3, 4), (5, 6), (7, 8), (9, 10)] (0, 0) 3)
   \<and> valid_indices (init_solver [(1, 2), (3, 4), (5, 6), (7, 8), (9, 10)] (0, 0) 3) [4, 2, 0, 3, 1]
   \<and> (\<exists>routes.
         get_vehicle_routes (init_solver [(1, 2), (3, 4), (5, 6), (7, 8), (9, 10)] (0, 0) 3)
           [4, 2, 0, 3, 1] = Inr routes
       \<and> length routes = 3
       \<and> routes ! 0 = [(0, 0), (9, 10), (7, 8), (0, 0)]
       \<and> routes ! 1 = [(0, 0), (5, 6), (3, 4), (0, 0)]
       \<and> routes ! 2 = [(0, 0), (1, 2), (0, 0)])"
proof -
  let ?s = "init_solver [(1, 2), (3, 4), (5, 6), (7, 8), (9, 10)] (0, 0) 3"
  have h: "1 \<le> num_vehicles ?s \<and> valid_indices ?s [4, 2, 0, 3, 1]"
    by (simp add: init_solver_def valid_indices_def)
  have nv: "nat (num_vehicles ?s) = 3" by (simp add: init_solver_def)
  from get_vehicle_routes_round_robin [of ?s "[4, 2, 0, 3, 1]"] h
  obtain routes where r: "get_vehicle_routes ?s [4, 2, 0, 3, 1] = Inr routes"
      "length routes = nat (num_vehicles ?s)"
      "\<forall>i < nat (num_vehicles ?s). routes ! i = spec_route ?s [4, 2, 0, 3, 1] i"
    by blast
  have "routes ! 0 = spec_route ?s [4, 2, 0, 3, 1] 0"
       "routes ! 1 = spec_route ?s [4, 2, 0, 3, 1] 1"
       "routes ! 2 = spec_route ?s [4, 2, 0, 3, 1] 2"
    using r(3) nv by simp_all
  then have "routes ! 0 = [(0, 0), (9, 10), (7, 8), (0, 0)]"
       "routes ! 1 = [(0, 0), (5, 6), (3, 4), (0, 0)]"
       "routes ! 2 = [(0, 0), (1, 2), (0, 0)]"
    by (simp_all add: spec_route_def init_solver_def upt_conv_Cons)
  then show ?thesis using h r(1,2) nv by simp
qed

section \<open>The fitness evaluator\<close>

text \<open>
  Claim C5. For an individual whose entries index the location list and at least one
  vehicle, \<open>_evaluate_vrp\<close> returns the pair of the total distance, which is the sum over
  the vehicles of the length of the vehicle's route (depot legs included), and the
  population standard deviation of the per-vehicle route lengths. For the four corners
  of a square of side 10, depot at the first corner, one vehicle and the individual
  \<open>[0,1,2,3]\<close> it returns 40 and 0.
\<close>

theorem evaluate_vrp_total_and_balance:
  "(1 \<le> num_vehicles s \<and> valid_indices s individual \<longrightarrow>
      evaluate_vrp s individual
        = Inr (sum_list (spec_distances s individual),
               Num (population_std (spec_distances s individual))))
   \<and> evaluate_vrp (init_solver [(0, 0), (10, 0), (10, 10), (0, 10)] (0, 0) 1) [0, 1, 2, 3]
       = Inr (40, Num 0)"
proof
  show "1 \<le> num_vehicles s \<and> valid_indices s individual \<longrightarrow>
      evaluate_vrp s individual
        = Inr (sum_list (spec_distances s individual),
               Num (population_std (spec_distances s individual)))"
    by (simp add: evaluate_vrp_valid)
  show "evaluate_vrp (init_solver [(0, 0), (10, 0), (10, 10), (0, 10)] (0, 0) 1) [0, 1, 2, 3]
       = Inr (40, Num 0)"
    by (simp add: evaluate_vrp_def py_range_def init_solver_def vehicle_route_def
          py_range3.simps py_index_def vehicle_distance_def py_sum_def norm_diff_def
          np_std_def np_mean_def upt_conv_Cons sqrt_100)
qed

theorem evaluate_vrp_total_and_balance_witness:
  "1 \<le> num_vehicles (init_solver [(3, 0), (0, 4), (3, 4)] (0, 0) 2)
   \<and> valid_indices (init_solver [(3, 0), (0, 4), (3, 4)] (0, 0) 2) [0, 1, 2]
   \<and> evaluate_vrp (init_solver [(3, 0), (0, 4), (3, 4)] (0, 0) 2) [0, 1, 2] = Inr (20, Num 2)"
proof -
  let ?s = "init_solver [(3, 0), (0, 4), (3, 4)] (0, 0) 2"
  have h: "1 \<le> num_vehicles ?s \<and> valid_indices ?s [0, 1, 2]"
    by (simp add: init_solver_def valid_indices_def)
  have sq: "sqrt 16 = 4" "sqrt 25 = 5" "sqrt 9 = 3"
    using real_sqrt_abs[of 4] real_sqrt_abs[of 5] real_sqrt_abs[of 3] by simp_all
  have d: "spec_distances ?s [0, 1, 2] = [12, 8]"
    by (simp add: spec_distances_def spec_route_def init_solver_def euclid_def
          upt_conv_Cons sq)
  have "population_std [12, 8] = 2"
    using real_sqrt_abs[of 2] by (simp add: population_std_def)
  with evaluate_vrp_total_and_balance [of ?s "[0, 1, 2]"] h d show ?thesis
    by simp
qed

text \<open>
  Claim C9. With fewer locations than vehicles nothing raises: every vehicle beyond the
  length of the individual gets the route depot, depot; that route has distance 0 in the
  list of per-vehicle distances, so the total is the sum over the vehicles that have
  stops; and the evaluator returns a pair of finite numbers.
\<close>

theorem fewer_locations_than_vehicles:
  assumes "valid_indices s individual"
    and "length individual = length (locations s)"
    and "int (length (locations s)) < num_vehicles s"
  shows "\<exists>routes distances b.
      get_vehicle_routes s individual = Inr routes
    \<and> length routes = nat (num_vehicles s)
    \<and> evaluate_loop s individual (py_range (num_vehicles s)) (0, [])
          = Inr (sum_list distances, distances)
    \<and> length distances = nat (num_vehicles s)
    \<and> evaluate_vrp s individual = Inr (sum_list distances, Num b)
    \<and> (\<forall>i. length individual \<le> i \<and> i < nat (num_vehicles s) \<longrightarrow>
           routes ! i = [depot s, depot s] \<and> distances ! i = 0)
    \<and> sum_list distances = sum_list (take (length individual) distances)"
proof -
  have nv: "1 \<le> num_vehicles s" using assms(3) by linarith
  let ?routes = "map (spec_route s individual) [0..<nat (num_vehicles s)]"
  let ?ds = "spec_distances s individual"
  have "\<forall>i. length individual \<le> i \<and> i < nat (num_vehicles s) \<longrightarrow>
           ?routes ! i = [depot s, depot s] \<and> ?ds ! i = 0"
    by (simp add: spec_route_empty spec_distances_def euclid_def)
  moreover have "length ?ds = nat (num_vehicles s)" by (simp add: spec_distances_def)
  ultimately show ?thesis
    using get_vehicle_routes_valid[OF assms(1)] evaluate_loop_valid[OF assms(1)]
      evaluate_vrp_valid[OF assms(1) nv] spec_distances_tail[of s individual]
    by (intro exI[of _ ?routes] exI[of _ ?ds] exI[of _ "population_std ?ds"]) simp
qed

theorem fewer_locations_than_vehicles_witness:
  "valid_indices (init_solver [(3, 4)] (0, 0) 3) [0]
   \<and> length [0 :: int] = length (locations (init_solver [(3, 4)] (0, 0) 3))
   \<and> int (length (locations (init_solver [(3, 4)] (0, 0) 3)))
       < num_vehicles (init_solver [(3, 4)] (0, 0) 3)
   \<and> get_vehicle_routes (init_solver [(3, 4)] (0, 0) 3) [0]
       = Inr [[(0, 0), (3, 4), (0, 0)], [(0, 0), (0, 0)], [(0, 0), (0, 0)]]
   \<and> evaluate_loop (init_solver [(3, 4)] (0, 0) 3) [0]
         (py_range (num_vehicles (init_solver [(3, 4)] (0, 0) 3))) (0, [])
       = Inr (10, [10, 0, 0])
   \<and> (\<exists>b. evaluate_vrp (init_solver [(3, 4)] (0, 0) 3) [0] = Inr (10, Num b))"
proof -
  let ?s = "init_solver [(3, 4)] (0, 0) 3"
  have h1: "valid_indices ?s [0]" by (simp add: init_solver_def valid_indices_def)
  have h2: "length [0 :: int] = length (locations ?s)" by (simp add: init_solver_def)
  have h3: "int (length (locations ?s)) < num_vehicles ?s" by (simp add: init_solver_def)
  have sq: "sqrt 25 = 5" using real_sqrt_abs[of 5] by simp
  have r: "get_vehicle_routes ?s [0]
       = Inr [[(0, 0), (3, 4), (0, 0)], [(0, 0), (0, 0)], [(0, 0), (0, 0)]]"
    by (simp add: get_vehicle_routes_def py_range_def init_solver_def vehicle_route_def
          py_range3.simps py_index_def upt_conv_Cons)
  have e: "evaluate_loop ?s [0] (py_range (num_vehicles ?s)) (0, []) = Inr (10, [10, 0, 0])"
    by (simp add: py_range_def init_solver_def vehicle_route_def py_range3.simps
          py_index_def vehicle_distance_def py_sum_def norm_diff_def upt_conv_Cons sq)
  from fewer_locations_than_vehicles [OF h1 h2 h3] e
  have "\<exists>b. evaluate_vrp ?s [0] = Inr (10, Num b)"
    by auto
  with h1 h2 h3 r e show ?thesis by simp
qed

text \<open>
  Claim C10. The route construction inlined in \<open>_evaluate_vrp\<close> agrees with
  \<open>get_vehicle_routes\<close>: for every individual, either both raise the same exception, or
  the total distance returned by the evaluator is the sum, over the routes the decoder
  returns, of the distances between consecutive points of each route.
\<close>

theorem evaluate_vrp_agrees_with_decoder:
  "map_sum id fst (evaluate_vrp s individual)
     = map_sum id (\<lambda>routes. sum_list (map route_length routes))
         (get_vehicle_routes s individual)"
proof (cases "emap (vehicle_route s individual) (py_range (num_vehicles s))")
  case (Inl e)
  then show ?thesis
    by (simp add: evaluate_vrp_def get_vehicle_routes_def evaluate_loop_emap routes_loop_emap)
next
  case (Inr routes)
  then show ?thesis
    by (simp add: evaluate_vrp_def get_vehicle_routes_def evaluate_loop_emap routes_loop_emap
          foldl_plus_real comp_def vehicle_distance_route_length cong: map_cong)
qed

theorem evaluate_vrp_agrees_with_decoder_witness:
  "map_sum id fst (evaluate_vrp (init_solver [(3, 0), (0, 4), (3, 4)] (0, 0) 2) [0, 1, 2])
     = Inr 20
   \<and> get_vehicle_routes (init_solver [(3, 0), (0, 4), (3, 4)] (0, 0) 2) [0, 1, 2]
     = Inr [[(0, 0), (3, 0), (3, 4), (0, 0)], [(0, 0), (0, 4), (0, 0)]]
   \<and> map_sum id fst (evaluate_vrp (init_solver [(3, 0), (0, 4)] (0, 0) 1) [0, 2])
     = Inl IndexError
   \<and> get_vehicle_routes (init_solver [(3, 0), (0, 4)] (0, 0) 1) [0, 2] = Inl IndexError"
proof -
  let ?s = "init_solver [(3, 0), (0, 4), (3, 4)] (0, 0) 2"
  let ?t = "init_solver [(3, 0), (0, 4)] (0, 0) 1"
  have sq: "sqrt 16 = 4" "sqrt 25 = 5" "sqrt 9 = 3"
    using real_sqrt_abs[of 4] real_sqrt_abs[of 5] real_sqrt_abs[of 3] by simp_all
  have r: "get_vehicle_routes ?s [0, 1, 2]
     = Inr [[(0, 0), (3, 0), (3, 4), (0, 0)], [(0, 0), (0, 4), (0, 0)]]"
    by (simp add: get_vehicle_routes_def py_range_def init_solver_def vehicle_route_def
          py_range3.simps py_index_def upt_conv_Cons)
  have t: "get_vehicle_routes ?t [0, 2] = Inl IndexError"
    by (simp add: get_vehicle_routes_def py_range_def init_solver_def vehicle_route_def
          py_range3.simps py_index_def upt_conv_Cons)
  from evaluate_vrp_agrees_with_decoder [of ?s "[0, 1, 2]"] r
  have "map_sum id fst (evaluate_vrp ?s [0, 1, 2]) = Inr 20"
    by (simp add: euclid_def sq)
  moreover from evaluate_vrp_agrees_with_decoder [of ?t "[0, 2]"] t
  have "map_sum id fst (evaluate_vrp ?t [0, 2]) = Inl IndexError"
    by simp
  ultimately show ?thesis using r t by simp
qed

section \<open>The fitness order\<close>

text \<open>
  Claim C3. The order that tournament selection (\<open>max\<close> by fitness) and the hall of
  fame (\<open>ind.fitness > hofer.fitness\<close>) use is lexicographic on the pair (total
  distance, balance penalty): of two evaluated individuals, one beats the other exactly
  when its total distance is strictly smaller, or the distances are equal and its balance
  penalty is strictly smaller. It follows from the weights \<open>(-1.0, -1.0)\<close> and the
  comparison of the weighted tuples.
\<close>

theorem fitness_order_lexicographic:
  assumes "wvalues a = setValues [Num ta, Num ba]" and "wvalues b = setValues [Num tb, Num bb]"
  shows "fitness_pair a = Some (ta, ba) \<and> fitness_pair b = Some (tb, bb)
    \<and> (fitness_gt (wvalues a) (wvalues b) \<longleftrightarrow> lex_less (ta, ba) (tb, bb))
    \<and> max_by_fitness [b, a] = Inr (if lex_less (ta, ba) (tb, bb) then a else b)
    \<and> hof_update_loop pop [a] (Some b)
        = Some (if lex_less (ta, ba) (tb, bb) \<and> genes a \<noteq> genes b then a else b)"
proof -
  have gt: "fitness_gt (wvalues a) (wvalues b) \<longleftrightarrow> lex_less (ta, ba) (tb, bb)"
    using assms
    by (auto simp: fitness_gt_def fitness_le_def setValues_def FitnessMin_weights_def lex_less_def)
  have "fitness_pair a = Some (ta, ba)" "fitness_pair b = Some (tb, bb)"
    using assms by (simp_all add: fitness_pair_def setValues_def getValues_def FitnessMin_weights_def)
  then show ?thesis using gt by (simp add: max_by_fitness_def)
qed

theorem fitness_order_lexicographic_witness:
  "wvalues \<lparr>genes = [0, 1], wvalues = [Num (- 6), Num (- 1)]\<rparr> = setValues [Num 6, Num 1]
   \<and> wvalues \<lparr>genes = [1, 0], wvalues = [Num (- 6), Num (- 2)]\<rparr> = setValues [Num 6, Num 2]
   \<and> fitness_gt [Num (- 6), Num (- 1)] [Num (- 6), Num (- 2)]
   \<and> max_by_fitness [\<lparr>genes = [1, 0], wvalues = [Num (- 6), Num (- 2)]\<rparr>,
                      \<lparr>genes = [0, 1], wvalues = [Num (- 6), Num (- 1)]\<rparr>]
       = Inr \<lparr>genes = [0, 1], wvalues = [Num (- 6), Num (- 1)]\<rparr>"
proof -
  let ?a = "\<lparr>genes = [0, 1], wvalues = [Num (- 6), Num (- 1)]\<rparr>"
  let ?b = "\<lparr>genes = [1, 0], wvalues = [Num (- 6), Num (- 2)]\<rparr>"
  have h1: "wvalues ?a = setValues [Num 6, Num 1]"
    by (simp add: setValues_def FitnessMin_weights_def)
  have h2: "wvalues ?b = setValues [Num 6, Num 2]"
    by (simp add: setValues_def FitnessMin_weights_def)
  from fitness_order_lexicographic [OF h1 h2] h1 h2 show ?thesis
    by (simp add: lex_less_def)
qed

section \<open>The permutation invariant\<close>

text \<open>
  Claim C6. Every individual produced in a run holds each index \<open>0..num_locations-1\<close>
  exactly once: the sample that initialises an individual is a permutation; both children
  of the partially matched crossover of two permutations of the same length are
  permutations of that length (and for a positive length the crossover does return
  children); a shuffle mutation of a permutation is a permutation; a generation keeps a
  state of permutations; and the best individual and the population that \<open>solve\<close>
  returns are permutations.
\<close>

theorem permutation_invariant:
  "(random_sample_range n g = (perm, ga) \<longrightarrow> is_permutation n perm)
   \<and> (is_permutation n ind1 \<and> is_permutation n ind2
        \<and> cxPartialyMatched ind1 ind2 g = Inr ((child1, child2), gb)
      \<longrightarrow> is_permutation n child1 \<and> is_permutation n child2
          \<and> length child1 = length ind1 \<and> length child2 = length ind2)
   \<and> (is_permutation n ind1 \<and> is_permutation n ind2 \<and> 0 < n
      \<longrightarrow> (\<exists>c1 c2 g'. cxPartialyMatched ind1 ind2 g = Inr ((c1, c2), g')))
   \<and> (is_permutation n ind \<and> mutShuffleIndexes ind indpb g = Inr (mutant, gc)
      \<longrightarrow> is_permutation n mutant)
   \<and> (permutation_state n st \<and> ea_generation s cp mp k st = Inr st'
      \<longrightarrow> permutation_state n st')
   \<and> (solve mt s g0 cfg = Inr (r, s', gd)
      \<longrightarrow> list_all (permutation_genes (num_locations s)) (best_individual r # population r))"
proof (intro conjI impI)
  show "is_permutation n perm" if "random_sample_range n g = (perm, ga)"
    using that by (rule random_sample_range_permutation)
next
  assume a: "is_permutation n ind1 \<and> is_permutation n ind2
        \<and> cxPartialyMatched ind1 ind2 g = Inr ((child1, child2), gb)"
  then have c: "is_permutation n child1 \<and> is_permutation n child2"
    using cxPartialyMatched_permutation[of n ind1 ind2 g child1 child2 gb] by simp
  then show "is_permutation n child1" "is_permutation n child2"
    "length child1 = length ind1" "length child2 = length ind2"
    using a perm_length[of n] by auto
next
  assume "is_permutation n ind1 \<and> is_permutation n ind2 \<and> 0 < n"
  then show "\<exists>c1 c2 g'. cxPartialyMatched ind1 ind2 g = Inr ((c1, c2), g')"
    using cxPartialyMatched_total[of n ind1 ind2 g] by simp
next
  assume "is_permutation n ind \<and> mutShuffleIndexes ind indpb g = Inr (mutant, gc)"
  then show "is_permutation n mutant"
    using mutShuffleIndexes_permutation[of n ind indpb g mutant gc] by simp
next
  assume "permutation_state n st \<and> ea_generation s cp mp k st = Inr st'"
  then show "permutation_state n st'"
    using ea_generation_permutation[of s cp mp k st st' n] by simp
next
  assume "solve mt s g0 cfg = Inr (r, s', gd)"
  then show "list_all (permutation_genes (num_locations s)) (best_individual r # population r)"
    by (rule solve_permutation)
qed

theorem permutation_invariant_witness:
  "random_sample_range 4 (tape_mt [] 1, 0) = ([1, 3, 2, 0], (tape_mt [] 1, 4))
   \<and> is_permutation 4 [1, 3, 2, 0]
   \<and> is_permutation 4 [0, 1, 2, 3] \<and> is_permutation 4 [3, 2, 1, 0] \<and> (0 :: nat) < 4
   \<and> cxPartialyMatched [0, 1, 2, 3] [3, 2, 1, 0] (tape_mt [] 1, 0)
       = Inr (([0, 2, 1, 3], [3, 1, 2, 0]), (tape_mt [] 1, 2))
   \<and> is_permutation 4 [0, 2, 1, 3] \<and> is_permutation 4 [3, 1, 2, 0]
   \<and> mutShuffleIndexes [0, 1, 2, 3] (5 / 100) (tape_mt [] 1, 0)
       = Inr ([2, 3, 0, 1], (tape_mt [] 1, 8))
   \<and> is_permutation 4 [2, 3, 0, 1]
   \<and> permutation_state 3
        \<lparr>ea_population = [\<lparr>genes = [0, 2, 1], wvalues = [Num (- 6), Num 0]\<rparr>],
           ea_hof = Some \<lparr>genes = [0, 2, 1], wvalues = [Num (- 6), Num 0]\<rparr>,
           ea_logbook = [], ea_rng = (tape_mt [] 0, 3)\<rparr>
   \<and> ea_generation (init_solver [(1, 0), (2, 0), (3, 0)] (0, 0) 1) 0 1 1
        \<lparr>ea_population = [\<lparr>genes = [0, 2, 1], wvalues = [Num (- 6), Num 0]\<rparr>],
           ea_hof = Some \<lparr>genes = [0, 2, 1], wvalues = [Num (- 6), Num 0]\<rparr>,
           ea_logbook = [], ea_rng = (tape_mt [] 0, 3)\<rparr>
       = Inr \<lparr>ea_population = [\<lparr>genes = [1, 2, 0], wvalues = [Num (- 6), Num 0]\<rparr>],
              ea_hof = Some \<lparr>genes = [0, 2, 1], wvalues = [Num (- 6), Num 0]\<rparr>,
              ea_logbook = [\<lparr>gen = 1, nevals = 1, avg = Num 3, minimum = Num 0,
                               maximum = Num 6\<rparr>],
              ea_rng = (tape_mt [] 0, 13)\<rparr>
   \<and> permutation_state 3
        \<lparr>ea_population = [\<lparr>genes = [1, 2, 0], wvalues = [Num (- 6), Num 0]\<rparr>],
           ea_hof = Some \<lparr>genes = [0, 2, 1], wvalues = [Num (- 6), Num 0]\<rparr>,
           ea_logbook = [\<lparr>gen = 1, nevals = 1, avg = Num 3, minimum = Num 0,
                            maximum = Num 6\<rparr>],
           ea_rng = (tape_mt [] 0, 13)\<rparr>
   \<and> list_all (permutation_genes 3)
        [\<lparr>genes = [0, 2, 1], wvalues = [Num (- 6), Num 0]\<rparr>,
         \<lparr>genes = [1, 2, 0], wvalues = [Num (- 6), Num 0]\<rparr>]"
proof -
  let ?g = "(tape_mt [] 1, 0 :: nat)"
  let ?s = "init_solver [(1, 0), (2, 0), (3, 0)] (0, 0) 1"
  let ?st = "\<lparr>ea_population = [\<lparr>genes = [0, 2, 1], wvalues = [Num (- 6), Num 0]\<rparr>],
           ea_hof = Some \<lparr>genes = [0, 2, 1], wvalues = [Num (- 6), Num 0]\<rparr>,
           ea_logbook = [], ea_rng = (tape_mt [] 0, 3)\<rparr>"
  have sample: "random_sample_range 4 ?g = ([1, 3, 2, 0], (tape_mt [] 1, 4))"
    by (simp add: random_sample_range_def randbelow_tape upt_conv_Cons)
  have p: "is_permutation 4 [0, 1, 2, 3]" "is_permutation 4 [3, 2, 1, 0]"
    by (simp_all add: is_permutation_def upt_conv_Cons)
  have cx: "cxPartialyMatched [0, 1, 2, 3] [3, 2, 1, 0] ?g
       = Inr (([0, 2, 1, 3], [3, 1, 2, 0]), (tape_mt [] 1, 2))"
    by (simp add: cxPartialyMatched_def pmx_step_def randbelow_tape randint_def
        py_index_def py_setitem_def upt_conv_Cons Let_def)
  have mu: "mutShuffleIndexes [0, 1, 2, 3] (5 / 100) ?g = Inr ([2, 3, 0, 1], (tape_mt [] 1, 8))"
    by (simp add: run_defs)
  have ps: "permutation_state 3 ?st"
    by (simp add: permutation_state_def permutation_genes_def is_permutation_def upt_conv_Cons)
  have gen: "ea_generation ?s 0 1 1 ?st
       = Inr \<lparr>ea_population = [\<lparr>genes = [1, 2, 0], wvalues = [Num (- 6), Num 0]\<rparr>],
              ea_hof = Some \<lparr>genes = [0, 2, 1], wvalues = [Num (- 6), Num 0]\<rparr>,
              ea_logbook = [\<lparr>gen = 1, nevals = 1, avg = Num 3, minimum = Num 0,
                               maximum = Num 6\<rparr>],
              ea_rng = (tape_mt [] 0, 13)\<rparr>"
    by (simp add: run_defs)
  have run: "solve (tape_mt []) ?s (tape_mt [] 0, 0)
      \<lparr>pop_size = 1, cxpb = 0, mutpb = 1, ngen = 1, tournsize = 1, seed = 0\<rparr>
    = Inr (\<lparr>best_individual = \<lparr>genes = [0, 2, 1], wvalues = [Num (- 6), Num 0]\<rparr>,
            population = [\<lparr>genes = [1, 2, 0], wvalues = [Num (- 6), Num 0]\<rparr>],
            stats = solve_statistics,
            hall_of_fame = Some \<lparr>genes = [0, 2, 1], wvalues = [Num (- 6), Num 0]\<rparr>\<rparr>,
           ?s\<lparr>select_tournsize := 1\<rparr>, (tape_mt [] 0, 11))"
    by (simp add: run_defs)
  have "is_permutation 4 [1, 3, 2, 0]"
    using permutation_invariant [THEN conjunct1, rule_format, OF sample] .
  moreover have "is_permutation 4 [0, 2, 1, 3] \<and> is_permutation 4 [3, 1, 2, 0]"
    using permutation_invariant [THEN conjunct2, THEN conjunct1, rule_format, of 4 "[0, 1, 2, 3]"
        "[3, 2, 1, 0]" ?g "[0, 2, 1, 3]" "[3, 1, 2, 0]"] p cx by simp
  moreover have "is_permutation 4 [2, 3, 0, 1]"
    using permutation_invariant [THEN conjunct2, THEN conjunct2, THEN conjunct2, THEN conjunct1,
        rule_format, of 4 "[0, 1, 2, 3]" "5 / 100" ?g] p mu by simp
  moreover have "permutation_state 3
        \<lparr>ea_population = [\<lparr>genes = [1, 2, 0], wvalues = [Num (- 6), Num 0]\<rparr>],
           ea_hof = Some \<lparr>genes = [0, 2, 1], wvalues = [Num (- 6), Num 0]\<rparr>,
           ea_logbook = [\<lparr>gen = 1, nevals = 1, avg = Num 3, minimum = Num 0,
                            maximum = Num 6\<rparr>],
           ea_rng = (tape_mt [] 0, 13)\<rparr>"
    using permutation_invariant [THEN conjunct2, THEN conjunct2, THEN conjunct2, THEN conjunct2,
        THEN conjunct1, rule_format, of 3 ?st ?s 0 1 1] ps gen by simp
  moreover have "list_all (permutation_genes 3)
        [\<lparr>genes = [0, 2, 1], wvalues = [Num (- 6), Num 0]\<rparr>,
         \<lparr>genes = [1, 2, 0], wvalues = [Num (- 6), Num 0]\<rparr>]"
    using permutation_invariant [THEN conjunct2, THEN conjunct2, THEN conjunct2, THEN conjunct2,
        THEN conjunct2, rule_format, OF run] by (simp add: init_solver_def numeral_3_eq_3)
  ultimately show ?thesis using sample p cx mu ps gen by simp
qed

section \<open>The hall of fame\<close>

text \<open>
  Claim C7. Across the generational loop of a run of \<open>solve\<close> the hall of fame of size 1
  holds a copy of the best individual seen so far. For one generation: the new member is
  the old member or an individual of the new population, and its fitness pair is
  lexicographically not greater than the old member's and than that of any individual of
  the new population; the same for the initial evaluation. For the loop \<open>ea_loop\<close> over any
  list of generations, started in a state whose member is a best individual of its
  population: the final state is such a state again, and the final member is not greater
  than the first member and than any individual of the first and of the last population.
  For \<open>eaSimple\<close> and for \<open>solve\<close> with \<open>ngen\<close> generations: for every \<open>j\<close> from 0
  to \<open>ngen\<close> the run with \<open>j\<close> generations returns (it is the state of the same run after
  generation \<open>j\<close>), and the final member is not greater than the member after generation
  \<open>j\<close> and than any individual of the population of generation \<open>j\<close>; so the stored
  fitness is non-increasing generation over generation and is the best of all populations
  of the run. The best individual that \<open>solve\<close> returns is the member of the hall of fame,
  and it need not be in the returned population (shown on a run). The fitness values are
  finite, which holds for at least one vehicle.
\<close>

theorem hall_of_fame_keeps_best:
  "(1 \<le> num_vehicles s \<and> scored_state s st \<and> ea_hof st = Some h
      \<and> ea_generation s cp mp k st = Inr st'
      \<longrightarrow> scored_state s st' \<and> hof_best s st'
        \<and> (\<exists>h' v v'. ea_hof st' = Some h' \<and> (h' = h \<or> h' \<in> set (ea_population st'))
             \<and> fitness_pair h = Some v \<and> fitness_pair h' = Some v' \<and> lex_le v' v
             \<and> (\<forall>x \<in> set (ea_population st'). \<exists>w. fitness_pair x = Some w \<and> lex_le v' w)))
   \<and> (1 \<le> num_vehicles s \<and> list_all (\<lambda>x. wvalues x = []) pop
        \<and> ea_record s 0 pop \<lparr>ea_population = pop, ea_hof = None, ea_logbook = [], ea_rng = g\<rparr> g
            = Inr st0
      \<longrightarrow> scored_state s st0 \<and> hof_best s st0
        \<and> (\<exists>h0 v0. ea_hof st0 = Some h0 \<and> h0 \<in> set (ea_population st0)
             \<and> fitness_pair h0 = Some v0
             \<and> (\<forall>x \<in> set (ea_population st0). \<exists>w. fitness_pair x = Some w \<and> lex_le v0 w)))
   \<and> (1 \<le> num_vehicles s \<and> hof_best s sta \<and> ea_loop s cp mp gens sta = Inr stb
      \<longrightarrow> hof_best s stb
        \<and> (\<exists>ha hb va vb. ea_hof sta = Some ha \<and> ea_hof stb = Some hb
             \<and> fitness_pair ha = Some va \<and> fitness_pair hb = Some vb \<and> lex_le vb va
             \<and> (\<forall>x \<in> set (ea_population sta) \<union> set (ea_population stb).
                   \<exists>w. fitness_pair x = Some w \<and> lex_le vb w)))
   \<and> (1 \<le> num_vehicles s \<and> list_all (\<lambda>x. wvalues x = []) pop
        \<and> eaSimple s pop cp mp ng None g = Inr ste \<and> 0 \<le> j \<and> j \<le> ng
      \<longrightarrow> (\<exists>stj he hj ve vj. eaSimple s pop cp mp j None g = Inr stj
             \<and> ea_hof ste = Some he \<and> ea_hof stj = Some hj
             \<and> fitness_pair he = Some ve \<and> fitness_pair hj = Some vj \<and> lex_le ve vj
             \<and> (\<forall>x \<in> set (ea_population stj). \<exists>w. fitness_pair x = Some w \<and> lex_le ve w)))
   \<and> (1 \<le> num_vehicles s \<and> solve mt s g cfg = Inr (r, s', g')
      \<longrightarrow> (\<exists>v. fitness_pair (best_individual r) = Some v
             \<and> (\<forall>x \<in> set (population r). \<exists>w. fitness_pair x = Some w \<and> lex_le v w)
             \<and> (\<forall>i. 0 \<le> i \<and> i \<le> ngen cfg \<longrightarrow>
                   (\<exists>ri si gi vi. solve mt s g (cfg\<lparr>ngen := i\<rparr>) = Inr (ri, si, gi)
                      \<and> fitness_pair (best_individual ri) = Some vi \<and> lex_le v vi
                      \<and> (\<forall>x \<in> set (population ri).
                            \<exists>w. fitness_pair x = Some w \<and> lex_le v w)))))
   \<and> (solve mt s g cfg = Inr (r, s', g') \<longrightarrow> hall_of_fame r = Some (best_individual r))
   \<and> (\<exists>r s' g'.
         solve (tape_mt []) (init_solver [(1, 0), (2, 0), (3, 0)] (0, 0) 1) (tape_mt [] 0, 0)
           \<lparr>pop_size = 1, cxpb = 0, mutpb = 1, ngen = 1, tournsize = 1, seed = 0\<rparr>
           = Inr (r, s', g')
       \<and> best_individual r \<notin> set (population r))"
proof (intro conjI impI)
  assume a: "1 \<le> num_vehicles s \<and> scored_state s st \<and> ea_hof st = Some h
      \<and> ea_generation s cp mp k st = Inr st'"
  then have nv: "1 \<le> num_vehicles s" and inv: "scored_state s st" and h: "ea_hof st = Some h"
    and run: "ea_generation s cp mp k st = Inr st'" by simp_all
  from ea_generation_scored[OF nv inv run] h obtain h'
    where inv': "scored_state s st'" and h': "ea_hof st' = Some h'"
      and mem: "h' \<in> set (ea_population st') \<or> h = h'"
      and le: "fitness_le (wvalues h) (wvalues h')"
    by auto
  show "scored_state s st'" by (rule inv')
  show b': "hof_best s st'" using ea_generation_hof_best[OF nv inv run] by simp
  have sh: "scored s h" using inv h by (simp add: scored_state_def)
  have sh': "scored s h'" using inv' h' by (simp add: scored_state_def)
  from scored_le_lex[OF sh sh' le] obtain v v'
    where v: "fitness_pair h = Some v" "fitness_pair h' = Some v'" "lex_le v' v" by blast
  from hof_best_lex[OF b' h' sh' scored_le_refl[OF sh']] v(2)
  have "\<forall>x \<in> set (ea_population st'). \<exists>w. fitness_pair x = Some w \<and> lex_le v' w" by auto
  with h' mem v
  show "\<exists>h' v v'. ea_hof st' = Some h' \<and> (h' = h \<or> h' \<in> set (ea_population st'))
             \<and> fitness_pair h = Some v \<and> fitness_pair h' = Some v' \<and> lex_le v' v
             \<and> (\<forall>x \<in> set (ea_population st'). \<exists>w. fitness_pair x = Some w \<and> lex_le v' w)"
    by blast
next
  let ?st = "\<lparr>ea_population = pop, ea_hof = None, ea_logbook = [], ea_rng = g\<rparr>"
  assume a: "1 \<le> num_vehicles s \<and> list_all (\<lambda>x. wvalues x = []) pop
        \<and> ea_record s 0 pop ?st g = Inr st0"
  then have nv: "1 \<le> num_vehicles s" and run: "ea_record s 0 pop ?st g = Inr st0" by simp_all
  have pre: "list_all (\<lambda>x. wvalues x = [] \<or> scored s x) pop"
    using a by (simp add: list_all_iff)
  from ea_record_scored[OF nv pre _ run] obtain h0
    where inv: "scored_state s st0" and h0: "ea_hof st0 = Some h0"
      and mem: "h0 \<in> set (ea_population st0)"
    by auto
  show "scored_state s st0" by (rule inv)
  show b: "hof_best s st0" using ea_record_hof_best[OF nv pre _ run] by simp
  have sh: "scored s h0" using inv h0 by (simp add: scored_state_def)
  from hof_best_lex[OF b h0 sh scored_le_refl[OF sh]] h0 mem
  show "\<exists>h0 v0. ea_hof st0 = Some h0 \<and> h0 \<in> set (ea_population st0)
             \<and> fitness_pair h0 = Some v0
             \<and> (\<forall>x \<in> set (ea_population st0). \<exists>w. fitness_pair x = Some w \<and> lex_le v0 w)"
    by auto
next
  assume a: "1 \<le> num_vehicles s \<and> hof_best s sta \<and> ea_loop s cp mp gens sta = Inr stb"
  then have nv: "1 \<le> num_vehicles s" and ba: "hof_best s sta"
    and run: "ea_loop s cp mp gens sta = Inr stb" by simp_all
  from ea_loop_hof_best[OF nv ba run] obtain ha hb
    where bb: "hof_best s stb" and ha: "ea_hof sta = Some ha" and hb: "ea_hof stb = Some hb"
      and le: "fitness_le (wvalues ha) (wvalues hb)" by blast
  show "hof_best s stb" by (rule bb)
  have sb: "scored s hb" using bb hb by (auto elim!: hof_bestD)
  from hof_best_lex[OF ba ha sb le] obtain va vb
    where v: "fitness_pair ha = Some va" "fitness_pair hb = Some vb" "lex_le vb va"
      and pa: "\<forall>x \<in> set (ea_population sta). \<exists>w. fitness_pair x = Some w \<and> lex_le vb w"
    by blast
  from hof_best_lex[OF bb hb sb scored_le_refl[OF sb]] v(2)
  have "\<forall>x \<in> set (ea_population stb). \<exists>w. fitness_pair x = Some w \<and> lex_le vb w" by auto
  with ha hb v pa
  show "\<exists>ha hb va vb. ea_hof sta = Some ha \<and> ea_hof stb = Some hb
             \<and> fitness_pair ha = Some va \<and> fitness_pair hb = Some vb \<and> lex_le vb va
             \<and> (\<forall>x \<in> set (ea_population sta) \<union> set (ea_population stb).
                   \<exists>w. fitness_pair x = Some w \<and> lex_le vb w)"
    by blast
next
  assume a: "1 \<le> num_vehicles s \<and> list_all (\<lambda>x. wvalues x = []) pop
        \<and> eaSimple s pop cp mp ng None g = Inr ste \<and> 0 \<le> j \<and> j \<le> ng"
  then have nv: "1 \<le> num_vehicles s" and fresh: "list_all (\<lambda>x. wvalues x = []) pop"
    and run: "eaSimple s pop cp mp ng None g = Inr ste" and j: "0 \<le> j" "j \<le> ng" by simp_all
  from eaSimple_best_so_far[OF nv fresh run j] obtain stj he hj
    where stj: "eaSimple s pop cp mp j None g = Inr stj" and bj: "hof_best s stj"
      and be: "hof_best s ste" and he: "ea_hof ste = Some he" and hj: "ea_hof stj = Some hj"
      and le: "fitness_le (wvalues hj) (wvalues he)" by blast
  have se: "scored s he" using be he by (auto elim!: hof_bestD)
  from hof_best_lex[OF bj hj se le] stj he hj
  show "\<exists>stj he hj ve vj. eaSimple s pop cp mp j None g = Inr stj
             \<and> ea_hof ste = Some he \<and> ea_hof stj = Some hj
             \<and> fitness_pair he = Some ve \<and> fitness_pair hj = Some vj \<and> lex_le ve vj
             \<and> (\<forall>x \<in> set (ea_population stj). \<exists>w. fitness_pair x = Some w \<and> lex_le ve w)"
    by blast
next
  assume a: "1 \<le> num_vehicles s \<and> solve mt s g cfg = Inr (r, s', g')"
  then have nv: "1 \<le> num_vehicles s" and run: "solve mt s g cfg = Inr (r, s', g')" by simp_all
  from solve_best_of_population[OF nv run] obtain v
    where v: "fitness_pair (best_individual r) = Some v"
      "\<forall>x \<in> set (population r). \<exists>w. fitness_pair x = Some w \<and> lex_le v w" by blast
  have "\<exists>ri si gi vi. solve mt s g (cfg\<lparr>ngen := i\<rparr>) = Inr (ri, si, gi)
                      \<and> fitness_pair (best_individual ri) = Some vi \<and> lex_le v vi
                      \<and> (\<forall>x \<in> set (population ri). \<exists>w. fitness_pair x = Some w \<and> lex_le v w)"
    if "0 \<le> i \<and> i \<le> ngen cfg" for i
    using solve_best_so_far[OF nv run, of i] that v(1) by auto
  with v
  show "\<exists>v. fitness_pair (best_individual r) = Some v
             \<and> (\<forall>x \<in> set (population r). \<exists>w. fitness_pair x = Some w \<and> lex_le v w)
             \<and> (\<forall>i. 0 \<le> i \<and> i \<le> ngen cfg \<longrightarrow>
                   (\<exists>ri si gi vi. solve mt s g (cfg\<lparr>ngen := i\<rparr>) = Inr (ri, si, gi)
                      \<and> fitness_pair (best_individual ri) = Some vi \<and> lex_le v vi
                      \<and> (\<forall>x \<in> set (population ri).
                            \<exists>w. fitness_pair x = Some w \<and> lex_le v w)))"
    by blast
next
  assume "solve mt s g cfg = Inr (r, s', g')"
  then show "hall_of_fame r = Some (best_individual r)"
    by (rule solve_eaSimple)
next
  have "solve (tape_mt []) (init_solver [(1, 0), (2, 0), (3, 0)] (0, 0) 1) (tape_mt [] 0, 0)
           \<lparr>pop_size = 1, cxpb = 0, mutpb = 1, ngen = 1, tournsize = 1, seed = 0\<rparr>
    = Inr (\<lparr>best_individual = \<lparr>genes = [0, 2, 1], wvalues = [Num (- 6), Num 0]\<rparr>,
            population = [\<lparr>genes = [1, 2, 0], wvalues = [Num (- 6), Num 0]\<rparr>],
            stats = solve_statistics,
            hall_of_fame = Some \<lparr>genes = [0, 2, 1], wvalues = [Num (- 6), Num 0]\<rparr>\<rparr>,
           (init_solver [(1, 0), (2, 0), (3, 0)] (0, 0) 1)\<lparr>select_tournsize := 1\<rparr>,
           (tape_mt [] 0, 11))"
    by (simp add: run_defs)
  then show "\<exists>r s' g'.
         solve (tape_mt []) (init_solver [(1, 0), (2, 0), (3, 0)] (0, 0) 1) (tape_mt [] 0, 0)
           \<lparr>pop_size = 1, cxpb = 0, mutpb = 1, ngen = 1, tournsize = 1, seed = 0\<rparr>
           = Inr (r, s', g')
       \<and> best_individual r \<notin> set (population r)"
    by simp
qed

theorem hall_of_fame_keeps_best_witness:
  "1 \<le> num_vehicles
     \<lparr>locations = [(1, 0), (2, 0), (3, 0)], depot = (0, 0), num_vehicles = 1,
        num_locations = 3, select_tournsize = 1\<rparr>
   \<and> list_all (\<lambda>x. wvalues x = []) [\<lparr>genes = [2, 0, 1], wvalues = []\<rparr>]
   \<and> ea_record
       \<lparr>locations = [(1, 0), (2, 0), (3, 0)], depot = (0, 0), num_vehicles = 1,
        num_locations = 3, select_tournsize = 1\<rparr> 0
       [\<lparr>genes = [2, 0, 1], wvalues = []\<rparr>]
       \<lparr>ea_population = [\<lparr>genes = [2, 0, 1], wvalues = []\<rparr>], ea_hof = None,
          ea_logbook = [], ea_rng = (tape_mt [2, 0, 2, 1, 2, 2, 1, 2, 0, 0, 1] 0, 3)\<rparr>
       (tape_mt [2, 0, 2, 1, 2, 2, 1, 2, 0, 0, 1] 0, 3)
     = Inr \<lparr>ea_population = [\<lparr>genes = [2, 0, 1], wvalues = [Num (- 8), Num 0]\<rparr>],
        ea_hof = Some \<lparr>genes = [2, 0, 1], wvalues = [Num (- 8), Num 0]\<rparr>,
        ea_logbook = [\<lparr>gen = 0, nevals = 1, avg = Num 4, minimum = Num 0, maximum = Num 8\<rparr>],
        ea_rng = (tape_mt [2, 0, 2, 1, 2, 2, 1, 2, 0, 0, 1] 0, 3)\<rparr>
   \<and> hof_best
       \<lparr>locations = [(1, 0), (2, 0), (3, 0)], depot = (0, 0), num_vehicles = 1,
        num_locations = 3, select_tournsize = 1\<rparr>
       \<lparr>ea_population = [\<lparr>genes = [2, 0, 1], wvalues = [Num (- 8), Num 0]\<rparr>],
        ea_hof = Some \<lparr>genes = [2, 0, 1], wvalues = [Num (- 8), Num 0]\<rparr>,
        ea_logbook = [\<lparr>gen = 0, nevals = 1, avg = Num 4, minimum = Num 0, maximum = Num 8\<rparr>],
        ea_rng = (tape_mt [2, 0, 2, 1, 2, 2, 1, 2, 0, 0, 1] 0, 3)\<rparr>
   \<and> ea_generation
       \<lparr>locations = [(1, 0), (2, 0), (3, 0)], depot = (0, 0), num_vehicles = 1,
        num_locations = 3, select_tournsize = 1\<rparr> 0 1 1
       \<lparr>ea_population = [\<lparr>genes = [2, 0, 1], wvalues = [Num (- 8), Num 0]\<rparr>],
        ea_hof = Some \<lparr>genes = [2, 0, 1], wvalues = [Num (- 8), Num 0]\<rparr>,
        ea_logbook = [\<lparr>gen = 0, nevals = 1, avg = Num 4, minimum = Num 0, maximum = Num 8\<rparr>],
        ea_rng = (tape_mt [2, 0, 2, 1, 2, 2, 1, 2, 0, 0, 1] 0, 3)\<rparr>
     = Inr \<lparr>ea_population = [\<lparr>genes = [0, 2, 1], wvalues = [Num (- 6), Num 0]\<rparr>],
        ea_hof = Some \<lparr>genes = [0, 2, 1], wvalues = [Num (- 6), Num 0]\<rparr>,
        ea_logbook = [\<lparr>gen = 0, nevals = 1, avg = Num 4, minimum = Num 0, maximum = Num 8\<rparr>,
                      \<lparr>gen = 1, nevals = 1, avg = Num 3, minimum = Num 0, maximum = Num 6\<rparr>],
        ea_rng = (tape_mt [2, 0, 2, 1, 2, 2, 1, 2, 0, 0, 1] 0, 11)\<rparr>
   \<and> ea_loop
       \<lparr>locations = [(1, 0), (2, 0), (3, 0)], depot = (0, 0), num_vehicles = 1,
        num_locations = 3, select_tournsize = 1\<rparr> 0 1 [1]
       \<lparr>ea_population = [\<lparr>genes = [2, 0, 1], wvalues = [Num (- 8), Num 0]\<rparr>],
        ea_hof = Some \<lparr>genes = [2, 0, 1], wvalues = [Num (- 8), Num 0]\<rparr>,
        ea_logbook = [\<lparr>gen = 0, nevals = 1, avg = Num 4, minimum = Num 0, maximum = Num 8\<rparr>],
        ea_rng = (tape_mt [2, 0, 2, 1, 2, 2, 1, 2, 0, 0, 1] 0, 3)\<rparr>
     = Inr \<lparr>ea_population = [\<lparr>genes = [0, 2, 1], wvalues = [Num (- 6), Num 0]\<rparr>],
        ea_hof = Some \<lparr>genes = [0, 2, 1], wvalues = [Num (- 6), Num 0]\<rparr>,
        ea_logbook = [\<lparr>gen = 0, nevals = 1, avg = Num 4, minimum = Num 0, maximum = Num 8\<rparr>,
                      \<lparr>gen = 1, nevals = 1, avg = Num 3, minimum = Num 0, maximum = Num 6\<rparr>],
        ea_rng = (tape_mt [2, 0, 2, 1, 2, 2, 1, 2, 0, 0, 1] 0, 11)\<rparr>
   \<and> hof_best
       \<lparr>locations = [(1, 0), (2, 0), (3, 0)], depot = (0, 0), num_vehicles = 1,
        num_locations = 3, select_tournsize = 1\<rparr>
       \<lparr>ea_population = [\<lparr>genes = [0, 2, 1], wvalues = [Num (- 6), Num 0]\<rparr>],
        ea_hof = Some \<lparr>genes = [0, 2, 1], wvalues = [Num (- 6), Num 0]\<rparr>,
        ea_logbook = [\<lparr>gen = 0, nevals = 1, avg = Num 4, minimum = Num 0, maximum = Num 8\<rparr>,
                      \<lparr>gen = 1, nevals = 1, avg = Num 3, minimum = Num 0, maximum = Num 6\<rparr>],
        ea_rng = (tape_mt [2, 0, 2, 1, 2, 2, 1, 2, 0, 0, 1] 0, 11)\<rparr>
   \<and> eaSimple
       \<lparr>locations = [(1, 0), (2, 0), (3, 0)], depot = (0, 0), num_vehicles = 1,
        num_locations = 3, select_tournsize = 1\<rparr>
       [\<lparr>genes = [2, 0, 1], wvalues = []\<rparr>] 0 1 1 None (tape_mt [2, 0, 2, 1, 2, 2, 1, 2, 0, 0, 1] 0, 3)
     = Inr \<lparr>ea_population = [\<lparr>genes = [0, 2, 1], wvalues = [Num (- 6), Num 0]\<rparr>],
        ea_hof = Some \<lparr>genes = [0, 2, 1], wvalues = [Num (- 6), Num 0]\<rparr>,
        ea_logbook = [\<lparr>gen = 0, nevals = 1, avg = Num 4, minimum = Num 0, maximum = Num 8\<rparr>,
                      \<lparr>gen = 1, nevals = 1, avg = Num 3, minimum = Num 0, maximum = Num 6\<rparr>],
        ea_rng = (tape_mt [2, 0, 2, 1, 2, 2, 1, 2, 0, 0, 1] 0, 11)\<rparr>
   \<and> eaSimple
       \<lparr>locations = [(1, 0), (2, 0), (3, 0)], depot = (0, 0), num_vehicles = 1,
        num_locations = 3, select_tournsize = 1\<rparr>
       [\<lparr>genes = [2, 0, 1], wvalues = []\<rparr>] 0 1 0 None (tape_mt [2, 0, 2, 1, 2, 2, 1, 2, 0, 0, 1] 0, 3)
     = Inr \<lparr>ea_population = [\<lparr>genes = [2, 0, 1], wvalues = [Num (- 8), Num 0]\<rparr>],
        ea_hof = Some \<lparr>genes = [2, 0, 1], wvalues = [Num (- 8), Num 0]\<rparr>,
        ea_logbook = [\<lparr>gen = 0, nevals = 1, avg = Num 4, minimum = Num 0, maximum = Num 8\<rparr>],
        ea_rng = (tape_mt [2, 0, 2, 1, 2, 2, 1, 2, 0, 0, 1] 0, 3)\<rparr>
   \<and> solve (tape_mt [2, 0, 2, 1, 2, 2, 1, 2, 0, 0, 1]) (init_solver [(1, 0), (2, 0), (3, 0)] (0, 0) 1) (tape_mt [] 0, 0)
       \<lparr>pop_size = 1, cxpb = 0, mutpb = 1, ngen = 1, tournsize = 1, seed = 0\<rparr>
     = Inr (\<lparr>best_individual = \<lparr>genes = [0, 2, 1], wvalues = [Num (- 6), Num 0]\<rparr>,
           population = [\<lparr>genes = [0, 2, 1], wvalues = [Num (- 6), Num 0]\<rparr>],
           stats = solve_statistics,
           hall_of_fame = Some \<lparr>genes = [0, 2, 1], wvalues = [Num (- 6), Num 0]\<rparr>\<rparr>,
          \<lparr>locations = [(1, 0), (2, 0), (3, 0)], depot = (0, 0), num_vehicles = 1,
        num_locations = 3, select_tournsize = 1\<rparr>,
          (tape_mt [2, 0, 2, 1, 2, 2, 1, 2, 0, 0, 1] 0, 11))
   \<and> solve (tape_mt [2, 0, 2, 1, 2, 2, 1, 2, 0, 0, 1]) (init_solver [(1, 0), (2, 0), (3, 0)] (0, 0) 1) (tape_mt [] 0, 0)
       \<lparr>pop_size = 1, cxpb = 0, mutpb = 1, ngen = 0, tournsize = 1, seed = 0\<rparr>
     = Inr (\<lparr>best_individual = \<lparr>genes = [2, 0, 1], wvalues = [Num (- 8), Num 0]\<rparr>,
           population = [\<lparr>genes = [2, 0, 1], wvalues = [Num (- 8), Num 0]\<rparr>],
           stats = solve_statistics,
           hall_of_fame = Some \<lparr>genes = [2, 0, 1], wvalues = [Num (- 8), Num 0]\<rparr>\<rparr>,
          \<lparr>locations = [(1, 0), (2, 0), (3, 0)], depot = (0, 0), num_vehicles = 1,
        num_locations = 3, select_tournsize = 1\<rparr>,
          (tape_mt [2, 0, 2, 1, 2, 2, 1, 2, 0, 0, 1] 0, 3))
   \<and> fitness_pair \<lparr>genes = [2, 0, 1], wvalues = [Num (- 8), Num 0]\<rparr> = Some (8, 0)
   \<and> fitness_pair \<lparr>genes = [0, 2, 1], wvalues = [Num (- 6), Num 0]\<rparr> = Some (6, 0)
   \<and> lex_le (6, 0) (8, 0)"
proof -
  let ?s = "\<lparr>locations = [(1, 0), (2, 0), (3, 0)], depot = (0, 0), num_vehicles = 1,
        num_locations = 3, select_tournsize = 1\<rparr>"
  let ?t = "tape_mt [2, 0, 2, 1, 2, 2, 1, 2, 0, 0, 1] 0"
  let ?pop = "[\<lparr>genes = [2, 0, 1], wvalues = []\<rparr>]"
  let ?h = "\<lparr>genes = [2, 0, 1], wvalues = [Num (- 8), Num 0]\<rparr>"
  let ?h' = "\<lparr>genes = [0, 2, 1], wvalues = [Num (- 6), Num 0]\<rparr>"
  let ?e = "\<lparr>gen = 0, nevals = 1, avg = Num 4, minimum = Num 0, maximum = Num 8\<rparr>"
  let ?e' = "\<lparr>gen = 1, nevals = 1, avg = Num 3, minimum = Num 0, maximum = Num 6\<rparr>"
  let ?st = "\<lparr>ea_population = [?h], ea_hof = Some ?h, ea_logbook = [?e], ea_rng = (?t, 3)\<rparr>"
  let ?st' = "\<lparr>ea_population = [?h'], ea_hof = Some ?h', ea_logbook = [?e, ?e'],
                ea_rng = (?t, 11)\<rparr>"
  let ?cfg = "\<lparr>pop_size = 1, cxpb = 0, mutpb = 1, ngen = 1, tournsize = 1, seed = 0\<rparr>"
  let ?r = "\<lparr>best_individual = \<lparr>genes = [0, 2, 1], wvalues = [Num (- 6), Num 0]\<rparr>,
           population = [\<lparr>genes = [0, 2, 1], wvalues = [Num (- 6), Num 0]\<rparr>],
           stats = solve_statistics,
           hall_of_fame = Some \<lparr>genes = [0, 2, 1], wvalues = [Num (- 6), Num 0]\<rparr>\<rparr>"
  let ?ra = "\<lparr>best_individual = \<lparr>genes = [2, 0, 1], wvalues = [Num (- 8), Num 0]\<rparr>,
           population = [\<lparr>genes = [2, 0, 1], wvalues = [Num (- 8), Num 0]\<rparr>],
           stats = solve_statistics,
           hall_of_fame = Some \<lparr>genes = [2, 0, 1], wvalues = [Num (- 8), Num 0]\<rparr>\<rparr>"
  have nv: "1 \<le> num_vehicles ?s" by simp
  have fresh: "list_all (\<lambda>x. wvalues x = []) ?pop" by simp
  have rec: "ea_record ?s 0 ?pop
      \<lparr>ea_population = ?pop, ea_hof = None, ea_logbook = [], ea_rng = (?t, 3)\<rparr> (?t, 3) = Inr ?st"
    by (simp add: run_defs)
  have gen: "ea_generation ?s 0 1 1 ?st = Inr ?st'"
    by (simp add: run_defs)
  have lp: "ea_loop ?s 0 1 [1] ?st = Inr ?st'"
    using gen by simp
  have eas: "eaSimple ?s ?pop 0 1 1 None (?t, 3) = Inr ?st'"
    by (simp add: run_defs)
  have eas0: "eaSimple ?s ?pop 0 1 0 None (?t, 3) = Inr ?st"
    using rec by (simp add: eaSimple_def)
  have run: "solve (tape_mt [2, 0, 2, 1, 2, 2, 1, 2, 0, 0, 1]) (init_solver [(1, 0), (2, 0), (3, 0)] (0, 0) 1) (tape_mt [] 0, 0) ?cfg = Inr (?r, ?s, (?t, 11))"
    by (simp add: run_defs)
  have run0: "solve (tape_mt [2, 0, 2, 1, 2, 2, 1, 2, 0, 0, 1]) (init_solver [(1, 0), (2, 0), (3, 0)] (0, 0) 1) (tape_mt [] 0, 0) (?cfg\<lparr>ngen := 0\<rparr>)
      = Inr (?ra, ?s, (?t, 3))"
    by (simp add: run_defs)
  have nvi: "1 \<le> num_vehicles (init_solver [(1, 0), (2, 0), (3, 0)] (0, 0) 1)" by (simp add: init_solver_def)
  have b0: "scored_state ?s ?st \<and> hof_best ?s ?st"
    using hall_of_fame_keeps_best [THEN conjunct2, THEN conjunct1, rule_format,
        of ?s ?pop "(?t, 3)" ?st] nv fresh rec by simp
  have b1: "scored_state ?s ?st' \<and> hof_best ?s ?st'"
    using hall_of_fame_keeps_best [THEN conjunct1, rule_format, of ?s ?st ?h 0 1 1 ?st']
      nv b0 gen by simp
  have p3: "1 \<le> num_vehicles ?s \<and> hof_best ?s ?st \<and> ea_loop ?s 0 1 [1] ?st = Inr ?st'"
    using nv b0 lp by simp
  from hall_of_fame_keeps_best [THEN conjunct2, THEN conjunct2, THEN conjunct1, rule_format, OF p3]
  obtain ha hb va vb where "ea_hof ?st = Some ha" "ea_hof ?st' = Some hb"
    "fitness_pair ha = Some va" "fitness_pair hb = Some vb" "lex_le vb va"
    by (elim conjE exE)
  then have l1: "\<exists>va vb. fitness_pair ?h = Some va \<and> fitness_pair ?h' = Some vb \<and> lex_le vb va"
    by auto
  have p4: "1 \<le> num_vehicles ?s \<and> list_all (\<lambda>x. wvalues x = []) ?pop
      \<and> eaSimple ?s ?pop 0 1 1 None (?t, 3) = Inr ?st' \<and> (0 :: int) \<le> 0 \<and> (0 :: int) \<le> 1"
    using nv fresh eas by simp
  from hall_of_fame_keeps_best [THEN conjunct2, THEN conjunct2, THEN conjunct2, THEN conjunct1,
      rule_format, OF p4]
  obtain stj he hj ve vj where "eaSimple ?s ?pop 0 1 0 None (?t, 3) = Inr stj"
    "ea_hof ?st' = Some he" "ea_hof stj = Some hj"
    "fitness_pair he = Some ve" "fitness_pair hj = Some vj" "lex_le ve vj"
    by (elim conjE exE)
  then have l2: "\<exists>ve vj. fitness_pair ?h' = Some ve \<and> fitness_pair ?h = Some vj \<and> lex_le ve vj"
    using eas0 by auto
  have p5: "1 \<le> num_vehicles (init_solver [(1, 0), (2, 0), (3, 0)] (0, 0) 1)
      \<and> solve (tape_mt [2, 0, 2, 1, 2, 2, 1, 2, 0, 0, 1]) (init_solver [(1, 0), (2, 0), (3, 0)] (0, 0) 1) (tape_mt [] 0, 0) ?cfg = Inr (?r, ?s, (?t, 11))"
    using nvi run by simp
  from hall_of_fame_keeps_best [THEN conjunct2, THEN conjunct2, THEN conjunct2, THEN conjunct2,
      THEN conjunct1, rule_format, OF p5]
  obtain v where v: "fitness_pair (best_individual ?r) = Some v"
    and all: "\<forall>i. 0 \<le> i \<and> i \<le> ngen ?cfg \<longrightarrow>
        (\<exists>ri si gi vi. solve (tape_mt [2, 0, 2, 1, 2, 2, 1, 2, 0, 0, 1]) (init_solver [(1, 0), (2, 0), (3, 0)] (0, 0) 1) (tape_mt [] 0, 0) (?cfg\<lparr>ngen := i\<rparr>)
             = Inr (ri, si, gi)
           \<and> fitness_pair (best_individual ri) = Some vi \<and> lex_le v vi
           \<and> (\<forall>x \<in> set (population ri). \<exists>w. fitness_pair x = Some w \<and> lex_le v w))"
    by (elim conjE exE)
  from all [rule_format, of 0]
  obtain ri si gi vi where "solve (tape_mt [2, 0, 2, 1, 2, 2, 1, 2, 0, 0, 1]) (init_solver [(1, 0), (2, 0), (3, 0)] (0, 0) 1) (tape_mt [] 0, 0) (?cfg\<lparr>ngen := 0\<rparr>)
             = Inr (ri, si, gi)" "fitness_pair (best_individual ri) = Some vi" "lex_le v vi"
    by auto
  then have l3: "\<exists>vi. fitness_pair ?h = Some vi \<and> lex_le v vi"
    using run0 by auto
  have l4: "hall_of_fame ?r = Some (best_individual ?r)"
    using hall_of_fame_keeps_best [THEN conjunct2, THEN conjunct2, THEN conjunct2, THEN conjunct2,
        THEN conjunct2, THEN conjunct1, rule_format, OF run] .
  have fp: "fitness_pair ?h = Some (8, 0)" "fitness_pair ?h' = Some (6, 0)"
    by (simp_all add: fitness_pair_def getValues_def FitnessMin_weights_def)
  have "lex_le (6, 0) (8, 0)" using l1 fp by simp
  then show ?thesis
    using nv fresh rec gen lp eas eas0 run run0 b0 b1 fp l2 l3 v l4 by simp
qed

section \<open>Reproducibility\<close>

text \<open>
  Claim C8. \<open>solve\<close> seeds the generator at entry from the configured seed, so its
  result is a function of the instance, the parameters and the stream of the seed alone:
  it does not depend on the state of the generator before the call, nor on the tournament
  size registered before the call. In particular a second call with the same arguments,
  made in the state the first one left, returns the same best individual, population,
  statistics object and hall of fame.
\<close>

theorem solve_reproducible:
  "(locations s1 = locations s2 \<and> depot s1 = depot s2 \<and> num_vehicles s1 = num_vehicles s2
      \<and> num_locations s1 = num_locations s2 \<and> mt1 (seed cfg) = mt2 (seed cfg)
      \<longrightarrow> solve mt1 s1 g1 cfg = solve mt2 s2 g2 cfg)
   \<and> (solve mt s g cfg = Inr (r, s', g') \<longrightarrow> solve mt s' g' cfg = Inr (r, s', g'))"
proof (intro conjI impI)
  assume "locations s1 = locations s2 \<and> depot s1 = depot s2 \<and> num_vehicles s1 = num_vehicles s2
      \<and> num_locations s1 = num_locations s2 \<and> mt1 (seed cfg) = mt2 (seed cfg)"
  then show "solve mt1 s1 g1 cfg = solve mt2 s2 g2 cfg"
    by (intro solve_independent_of_prior_state) simp_all
next
  assume a: "solve mt s g cfg = Inr (r, s', g')"
  have "solve mt s' g' cfg = solve mt s g cfg"
    unfolding solve_result_state[OF a]
    by (rule solve_independent_of_prior_state) simp_all
  with a show "solve mt s' g' cfg = Inr (r, s', g')" by simp
qed

theorem solve_reproducible_witness:
  "solve (tape_mt []) (init_solver [(1, 0), (2, 0), (3, 0)] (0, 0) 1) (tape_mt [7] 1, 5)
      \<lparr>pop_size = 1, cxpb = 0, mutpb = 1, ngen = 1, tournsize = 1, seed = 0\<rparr>
    = solve (tape_mt [])
        \<lparr>locations = [(1, 0), (2, 0), (3, 0)], depot = (0, 0), num_vehicles = 1,
           num_locations = 3, select_tournsize = 9\<rparr> (tape_mt [3] 2, 11)
        \<lparr>pop_size = 1, cxpb = 0, mutpb = 1, ngen = 1, tournsize = 1, seed = 0\<rparr>
   \<and> solve (tape_mt [])
        \<lparr>locations = [(1, 0), (2, 0), (3, 0)], depot = (0, 0), num_vehicles = 1,
           num_locations = 3, select_tournsize = 1\<rparr> (tape_mt [] 0, 11)
        \<lparr>pop_size = 1, cxpb = 0, mutpb = 1, ngen = 1, tournsize = 1, seed = 0\<rparr>
    = Inr (\<lparr>best_individual = \<lparr>genes = [0, 2, 1], wvalues = [Num (- 6), Num 0]\<rparr>,
            population = [\<lparr>genes = [1, 2, 0], wvalues = [Num (- 6), Num 0]\<rparr>],
            stats = solve_statistics,
            hall_of_fame = Some \<lparr>genes = [0, 2, 1], wvalues = [Num (- 6), Num 0]\<rparr>\<rparr>,
           \<lparr>locations = [(1, 0), (2, 0), (3, 0)], depot = (0, 0), num_vehicles = 1,
              num_locations = 3, select_tournsize = 1\<rparr>,
           (tape_mt [] 0, 11))"
proof -
  let ?cfg = "\<lparr>pop_size = 1, cxpb = 0, mutpb = 1, ngen = 1, tournsize = 1, seed = 0\<rparr>"
  let ?s = "init_solver [(1, 0), (2, 0), (3, 0)] (0, 0) 1"
  have run: "solve (tape_mt []) ?s (tape_mt [7] 1, 5) ?cfg
    = Inr (\<lparr>best_individual = \<lparr>genes = [0, 2, 1], wvalues = [Num (- 6), Num 0]\<rparr>,
            population = [\<lparr>genes = [1, 2, 0], wvalues = [Num (- 6), Num 0]\<rparr>],
            stats = solve_statistics,
            hall_of_fame = Some \<lparr>genes = [0, 2, 1], wvalues = [Num (- 6), Num 0]\<rparr>\<rparr>,
           \<lparr>locations = [(1, 0), (2, 0), (3, 0)], depot = (0, 0), num_vehicles = 1,
              num_locations = 3, select_tournsize = 1\<rparr>,
           (tape_mt [] 0, 11))"
    by (simp add: run_defs)
  have "solve (tape_mt []) ?s (tape_mt [7] 1, 5) ?cfg
    = solve (tape_mt [])
        \<lparr>locations = [(1, 0), (2, 0), (3, 0)], depot = (0, 0), num_vehicles = 1,
           num_locations = 3, select_tournsize = 9\<rparr> (tape_mt [3] 2, 11) ?cfg"
    by (rule solve_reproducible [THEN conjunct1, rule_format]) (simp add: init_solver_def)
  moreover note solve_reproducible [THEN conjunct2, rule_format, OF run]
  ultimately show ?thesis by simp
qed

section \<open>Arguments that the specification calls invalid\<close>

text \<open>
  Claim C1, as amended. \<open>solve\<close> checks none of its arguments and raises neither an
  InvalidConfig nor an EmptyInstance error; the only exceptions are those of Python, numpy
  and DEAP, raised during the run. With \<open>ngen \<le> 0\<close> and \<open>pop_size \<ge> 1\<close> it returns
  normally, with the result of \<open>ngen = 0\<close>, for every \<open>cxpb\<close>, \<open>mutpb\<close>, \<open>tournsize\<close>
  and \<open>num_vehicles\<close> and every number of locations, zero included. With \<open>pop_size \<le> 0\<close>
  it raises numpy's ValueError, from the statistics of the empty population, that is after
  the population was created. For every \<open>ngen\<close>, positive ones included, it returns
  normally whenever \<open>pop_size \<ge> 1\<close> and \<open>tournsize \<ge> 1\<close>, for every \<open>cxpb\<close> and \<open>mutpb\<close>
  (inside or outside the unit interval), every \<open>num_vehicles\<close> (also below 1) and
  \<open>pop_size < tournsize\<close>, provided that crossover is not applied to empty individuals
  (there is a location, or \<open>pop_size = 1\<close>, or \<open>cxpb \<le> 0\<close>) and mutation not to
  individuals of length 1 (\<open>num_locations \<noteq> 1\<close> or \<open>mutpb \<le> 0\<close>), where the operators of
  DEAP raise. With \<open>tournsize \<le> 0\<close>, \<open>pop_size \<ge> 1\<close> and \<open>ngen \<ge> 1\<close> it raises
  ValueError from \<open>max\<close> of an empty tournament in the first generation, while the same
  call with \<open>ngen = 0\<close> returns: the initial population was created and evaluated
  before the exception.
\<close>

theorem solve_does_not_validate:
  "(ngen cfg \<le> 0 \<and> 1 \<le> pop_size cfg \<and> num_locations s = length (locations s)
      \<longrightarrow> (\<exists>r s' g'. solve mt s g cfg = Inr (r, s', g')
            \<and> solve mt s g (cfg\<lparr>ngen := 0\<rparr>) = Inr (r, s', g')))
   \<and> (pop_size cfg \<le> 0 \<longrightarrow> solve mt s g cfg = Inl ValueError)
   \<and> (num_locations s \<le> length (locations s) \<and> 1 \<le> pop_size cfg \<and> 1 \<le> tournsize cfg
        \<and> (pop_size cfg \<le> 1 \<or> 0 < num_locations s \<or> cxpb cfg \<le> 0)
        \<and> (num_locations s \<noteq> 1 \<or> mutpb cfg \<le> 0)
      \<longrightarrow> (\<exists>r s' g'. solve mt s g cfg = Inr (r, s', g')))
   \<and> (num_locations s \<le> length (locations s) \<and> 1 \<le> pop_size cfg \<and> tournsize cfg \<le> 0
        \<and> 1 \<le> ngen cfg
      \<longrightarrow> solve mt s g cfg = Inl ValueError
          \<and> (\<exists>r s' g'. solve mt s g (cfg\<lparr>ngen := 0\<rparr>) = Inr (r, s', g')))"
proof (intro conjI impI)
  assume a: "ngen cfg \<le> 0 \<and> 1 \<le> pop_size cfg \<and> num_locations s = length (locations s)"
  then obtain r s' g' where "solve mt s g cfg = Inr (r, s', g')"
    using solve_without_generations[of cfg s mt g] by auto
  moreover have "solve mt s g cfg = solve mt s g (cfg\<lparr>ngen := 0\<rparr>)"
    using a by (intro solve_ngen_nonpositive) simp
  ultimately show "\<exists>r s' g'. solve mt s g cfg = Inr (r, s', g')
            \<and> solve mt s g (cfg\<lparr>ngen := 0\<rparr>) = Inr (r, s', g')"
    by auto
next
  assume "pop_size cfg \<le> 0"
  then show "solve mt s g cfg = Inl ValueError" by (rule solve_empty_population)
next
  assume "num_locations s \<le> length (locations s) \<and> 1 \<le> pop_size cfg \<and> 1 \<le> tournsize cfg
        \<and> (pop_size cfg \<le> 1 \<or> 0 < num_locations s \<or> cxpb cfg \<le> 0)
        \<and> (num_locations s \<noteq> 1 \<or> mutpb cfg \<le> 0)"
  then show "\<exists>r s' g'. solve mt s g cfg = Inr (r, s', g')"
    by (intro solve_total) simp_all
next
  assume a: "num_locations s \<le> length (locations s) \<and> 1 \<le> pop_size cfg \<and> tournsize cfg \<le> 0
        \<and> 1 \<le> ngen cfg"
  with solve_tournsize_nonpositive[of s cfg mt g]
  show "solve mt s g cfg = Inl ValueError" by simp
next
  assume a: "num_locations s \<le> length (locations s) \<and> 1 \<le> pop_size cfg \<and> tournsize cfg \<le> 0
        \<and> 1 \<le> ngen cfg"
  with solve_tournsize_nonpositive[of s cfg mt g]
  show "\<exists>r s' g'. solve mt s g (cfg\<lparr>ngen := 0\<rparr>) = Inr (r, s', g')" by simp
qed

theorem solve_does_not_validate_witness:
  "ngen \<lparr>pop_size = 1, cxpb = 3 / 2, mutpb = - 1, ngen = - 1, tournsize = 5, seed = 0\<rparr> \<le> 0
   \<and> 1 \<le> pop_size \<lparr>pop_size = 1, cxpb = 3 / 2, mutpb = - 1, ngen = - 1, tournsize = 5, seed = 0\<rparr>
   \<and> num_locations (init_solver [(1, 0), (2, 0), (3, 0)] (0, 0) 0)
       = length (locations (init_solver [(1, 0), (2, 0), (3, 0)] (0, 0) 0))
   \<and> (\<exists>r s' g'. solve (tape_mt []) (init_solver [(1, 0), (2, 0), (3, 0)] (0, 0) 0) (tape_mt [] 0, 0)
         \<lparr>pop_size = 1, cxpb = 3 / 2, mutpb = - 1, ngen = - 1, tournsize = 5, seed = 0\<rparr>
         = Inr (r, s', g')
       \<and> solve (tape_mt []) (init_solver [(1, 0), (2, 0), (3, 0)] (0, 0) 0) (tape_mt [] 0, 0)
         \<lparr>pop_size = 1, cxpb = 3 / 2, mutpb = - 1, ngen = 0, tournsize = 5, seed = 0\<rparr>
         = Inr (r, s', g'))
   \<and> pop_size \<lparr>pop_size = 0, cxpb = 7 / 10, mutpb = 2 / 10, ngen = 3, tournsize = 3, seed = 0\<rparr> \<le> 0
   \<and> solve (tape_mt []) (init_solver [(1, 0), (2, 0), (3, 0)] (0, 0) 1) (tape_mt [] 0, 0)
         \<lparr>pop_size = 0, cxpb = 7 / 10, mutpb = 2 / 10, ngen = 3, tournsize = 3, seed = 0\<rparr>
       = Inl ValueError
   \<and> num_locations (init_solver [(1, 0), (2, 0), (3, 0)] (0, 0) 0)
       \<le> length (locations (init_solver [(1, 0), (2, 0), (3, 0)] (0, 0) 0))
   \<and> 1 \<le> pop_size \<lparr>pop_size = 2, cxpb = 3 / 2, mutpb = - 1, ngen = 4, tournsize = 5, seed = 0\<rparr>
   \<and> 1 \<le> tournsize \<lparr>pop_size = 2, cxpb = 3 / 2, mutpb = - 1, ngen = 4, tournsize = 5, seed = 0\<rparr>
   \<and> 0 < num_locations (init_solver [(1, 0), (2, 0), (3, 0)] (0, 0) 0)
   \<and> num_locations (init_solver [(1, 0), (2, 0), (3, 0)] (0, 0) 0) \<noteq> 1
   \<and> (\<exists>r s' g'. solve (tape_mt []) (init_solver [(1, 0), (2, 0), (3, 0)] (0, 0) 0) (tape_mt [] 0, 0)
         \<lparr>pop_size = 2, cxpb = 3 / 2, mutpb = - 1, ngen = 4, tournsize = 5, seed = 0\<rparr>
         = Inr (r, s', g'))
   \<and> tournsize \<lparr>pop_size = 1, cxpb = 7 / 10, mutpb = 2 / 10, ngen = 1, tournsize = 0, seed = 0\<rparr> \<le> 0
   \<and> 1 \<le> ngen \<lparr>pop_size = 1, cxpb = 7 / 10, mutpb = 2 / 10, ngen = 1, tournsize = 0, seed = 0\<rparr>
   \<and> solve (tape_mt []) (init_solver [(1, 0), (2, 0), (3, 0)] (0, 0) 1) (tape_mt [] 0, 0)
         \<lparr>pop_size = 1, cxpb = 7 / 10, mutpb = 2 / 10, ngen = 1, tournsize = 0, seed = 0\<rparr>
       = Inl ValueError
   \<and> (\<exists>r s' g'. solve (tape_mt []) (init_solver [(1, 0), (2, 0), (3, 0)] (0, 0) 1) (tape_mt [] 0, 0)
         \<lparr>pop_size = 1, cxpb = 7 / 10, mutpb = 2 / 10, ngen = 0, tournsize = 0, seed = 0\<rparr>
         = Inr (r, s', g'))"
proof -
  let ?cfg = "\<lparr>pop_size = 1, cxpb = 3 / 2, mutpb = - 1, ngen = - 1, tournsize = 5, seed = 0\<rparr>"
  let ?none = "\<lparr>pop_size = 0, cxpb = 7 / 10, mutpb = 2 / 10, ngen = 3, tournsize = 3, seed = 0\<rparr>"
  let ?wild = "\<lparr>pop_size = 2, cxpb = 3 / 2, mutpb = - 1, ngen = 4, tournsize = 5, seed = 0\<rparr>"
  let ?bare = "\<lparr>pop_size = 1, cxpb = 7 / 10, mutpb = 2 / 10, ngen = 1, tournsize = 0, seed = 0\<rparr>"
  let ?s = "init_solver [(1, 0), (2, 0), (3, 0)] (0, 0) 0"
  let ?t = "init_solver [(1, 0), (2, 0), (3, 0)] (0, 0) 1"
  have h: "ngen ?cfg \<le> 0 \<and> 1 \<le> pop_size ?cfg \<and> num_locations ?s = length (locations ?s)"
    by (simp add: init_solver_def)
  have hn: "pop_size ?none \<le> 0" by simp
  have hw: "num_locations ?s \<le> length (locations ?s) \<and> 1 \<le> pop_size ?wild
      \<and> 1 \<le> tournsize ?wild
      \<and> (pop_size ?wild \<le> 1 \<or> 0 < num_locations ?s \<or> cxpb ?wild \<le> 0)
      \<and> (num_locations ?s \<noteq> 1 \<or> mutpb ?wild \<le> 0)"
    by (simp add: init_solver_def)
  have hb: "num_locations ?t \<le> length (locations ?t) \<and> 1 \<le> pop_size ?bare
      \<and> tournsize ?bare \<le> 0 \<and> 1 \<le> ngen ?bare"
    by (simp add: init_solver_def)
  note thm1 = solve_does_not_validate [THEN conjunct1, rule_format, OF h,
      of "tape_mt []" "(tape_mt [] 0, 0)"]
  note thm2 = solve_does_not_validate [THEN conjunct2, THEN conjunct1, rule_format, OF hn,
      of "tape_mt []" ?t "(tape_mt [] 0, 0)"]
  note thm3 = solve_does_not_validate [THEN conjunct2, THEN conjunct2, THEN conjunct1,
      rule_format, OF hw, of "tape_mt []" "(tape_mt [] 0, 0)"]
  note thm4 = solve_does_not_validate [THEN conjunct2, THEN conjunct2, THEN conjunct2,
      rule_format, OF hb, of "tape_mt []" "(tape_mt [] 0, 0)"]
  have a: "num_locations ?s = 3" "num_locations ?t = 3" "length (locations ?s) = 3"
    by (simp_all add: init_solver_def)
  show ?thesis using thm1 thm2 thm3 thm4 by (simp add: a)
qed

theorem solve_validation_counterexample:
  "solve (tape_mt []) (init_solver [(1, 0), (2, 0), (3, 0)] (0, 0) 0) (tape_mt [] 0, 0)
     \<lparr>pop_size = 1, cxpb = 3 / 2, mutpb = - 1, ngen = - 1, tournsize = 5, seed = 0\<rparr>
   = Inr (\<lparr>best_individual = \<lparr>genes = [0, 2, 1], wvalues = [Num 0, NaN]\<rparr>,
           population = [\<lparr>genes = [0, 2, 1], wvalues = [Num 0, NaN]\<rparr>],
           stats = solve_statistics,
           hall_of_fame = Some \<lparr>genes = [0, 2, 1], wvalues = [Num 0, NaN]\<rparr>\<rparr>,
          \<lparr>locations = [(1, 0), (2, 0), (3, 0)], depot = (0, 0), num_vehicles = 0,
             num_locations = 3, select_tournsize = 5\<rparr>,
          (tape_mt [] 0, 3))
   \<and> solve (tape_mt []) (init_solver [] (0, 0) 1) (tape_mt [] 0, 0)
     \<lparr>pop_size = 2, cxpb = 7 / 10, mutpb = 2 / 10, ngen = 0, tournsize = 2, seed = 0\<rparr>
   = Inr (\<lparr>best_individual = \<lparr>genes = [], wvalues = [Num 0, Num 0]\<rparr>,
           population = [\<lparr>genes = [], wvalues = [Num 0, Num 0]\<rparr>,
                         \<lparr>genes = [], wvalues = [Num 0, Num 0]\<rparr>],
           stats = solve_statistics,
           hall_of_fame = Some \<lparr>genes = [], wvalues = [Num 0, Num 0]\<rparr>\<rparr>,
          \<lparr>locations = [], depot = (0, 0), num_vehicles = 1,
             num_locations = 0, select_tournsize = 2\<rparr>,
          (tape_mt [] 0, 0))
   \<and> solve (tape_mt []) (init_solver [(1, 0), (2, 0), (3, 0)] (0, 0) 1) (tape_mt [] 0, 0)
     \<lparr>pop_size = 2, cxpb = 3 / 2, mutpb = - 1, ngen = 1, tournsize = 5, seed = 0\<rparr>
   = Inr (\<lparr>best_individual = \<lparr>genes = [0, 2, 1], wvalues = [Num (- 6), Num 0]\<rparr>,
           population = [\<lparr>genes = [0, 2, 1], wvalues = [Num (- 6), Num 0]\<rparr>,
                         \<lparr>genes = [0, 2, 1], wvalues = [Num (- 6), Num 0]\<rparr>],
           stats = solve_statistics,
           hall_of_fame = Some \<lparr>genes = [0, 2, 1], wvalues = [Num (- 6), Num 0]\<rparr>\<rparr>,
          \<lparr>locations = [(1, 0), (2, 0), (3, 0)], depot = (0, 0), num_vehicles = 1,
             num_locations = 3, select_tournsize = 5\<rparr>,
          (tape_mt [] 0, 21))
   \<and> solve (tape_mt []) (init_solver [] (0, 0) 1) (tape_mt [] 0, 0)
     \<lparr>pop_size = 2, cxpb = 0, mutpb = 2 / 10, ngen = 1, tournsize = 2, seed = 0\<rparr>
   = Inr (\<lparr>best_individual = \<lparr>genes = [], wvalues = [Num 0, Num 0]\<rparr>,
           population = [\<lparr>genes = [], wvalues = [Num 0, Num 0]\<rparr>,
                         \<lparr>genes = [], wvalues = [Num 0, Num 0]\<rparr>],
           stats = solve_statistics,
           hall_of_fame = Some \<lparr>genes = [], wvalues = [Num 0, Num 0]\<rparr>\<rparr>,
          \<lparr>locations = [], depot = (0, 0), num_vehicles = 1,
             num_locations = 0, select_tournsize = 2\<rparr>,
          (tape_mt [] 0, 7))"
  by (simp add: run_defs cxPartialyMatched_def pmx_step_def)

section \<open>The statistics that solve returns\<close>

text \<open>
  Claim C2. The claim is that the third component of the result of \<open>solve\<close> is the
  history with one record per generation. On the run below, \<open>solve\<close> returns the
  statistics object, which holds the registrations \<open>avg\<close>, \<open>min\<close>, \<open>max\<close> and no
  record, the same for \<open>ngen = 1\<close> and \<open>ngen = 0\<close>; the history of two records is the
  logbook of \<open>eaSimple\<close>, which \<open>solve\<close> drops.
\<close>

theorem solve_returns_statistics_object:
  "map_sum id (stats \<circ> fst)
     (solve (tape_mt []) (init_solver [(1, 0), (2, 0), (3, 0)] (0, 0) 1) (tape_mt [] 0, 0)
        \<lparr>pop_size = 1, cxpb = 0, mutpb = 1, ngen = 1, tournsize = 1, seed = 0\<rparr>)
     = Inr \<lparr>stat_fields = [''avg'', ''min'', ''max'']\<rparr>
   \<and> map_sum id (stats \<circ> fst)
     (solve (tape_mt []) (init_solver [(1, 0), (2, 0), (3, 0)] (0, 0) 1) (tape_mt [] 0, 0)
        \<lparr>pop_size = 1, cxpb = 0, mutpb = 1, ngen = 0, tournsize = 1, seed = 0\<rparr>)
     = Inr \<lparr>stat_fields = [''avg'', ''min'', ''max'']\<rparr>
   \<and> map_sum id ea_logbook
     (eaSimple
        \<lparr>locations = [(1, 0), (2, 0), (3, 0)], depot = (0, 0), num_vehicles = 1,
           num_locations = 3, select_tournsize = 1\<rparr>
        [\<lparr>genes = [0, 2, 1], wvalues = []\<rparr>] 0 1 1 None (tape_mt [] 0, 3))
     = Inr [\<lparr>gen = 0, nevals = 1, avg = Num 3, minimum = Num 0, maximum = Num 6\<rparr>,
            \<lparr>gen = 1, nevals = 1, avg = Num 3, minimum = Num 0, maximum = Num 6\<rparr>]"
  by (simp add: run_defs)

end
